theory Spec2Isabelle
  imports Complex_Main "HOL-Library.Multiset" "HOL-Library.Char_ord" "HOL-Library.List_Lexorder"
begin

section \<open>Data model (internal/domain/crawler.go)\<close>

text \<open>
  Go's \<open>int\<close> and \<open>int64\<close> fields are modelled as \<open>int\<close>; the one place where the
  wrap-around of 64-bit arithmetic is visible (the priority of a queued task) writes it out.
  A \<open>time.Time\<close> is represented by its Unix second, the only reading the modelled code
  takes of it. A Go \<open>map[string]int\<close> is an association list with pairwise distinct keys;
  \<open>len\<close> of the map is the length of that list. Strings are byte strings.
\<close>

record URLTask =
  URL :: string
  Depth :: int
  Timestamp :: int
  Retries :: int

record CrawlResult =
  rURL :: string
  StatusCode :: int
  Title :: string
  Emails :: "string list"
  Keywords :: "(string \<times> int) list"
  DeadLinks :: "string list"
  DeadDomains :: "string list"
  NewURLs :: "string list"
  ProcessedAt :: int
  Error :: string

text \<open>The counters of \<open>domain.CrawlMetrics\<close> (gauges and derived rates are left out).\<close>

record CrawlMetrics =
  URLsProcessed :: int
  EmailsFound :: int
  KeywordsFound :: int
  LinksChecked :: int
  DeadLinksFound :: int
  DeadDomainsFound :: int
  Errors :: int

definition zero_metrics :: CrawlMetrics where
  "zero_metrics = \<lparr>URLsProcessed = 0, EmailsFound = 0, KeywordsFound = 0, LinksChecked = 0,
     DeadLinksFound = 0, DeadDomainsFound = 0, Errors = 0\<rparr>"

text \<open>The zero value \<open>domain.CrawlResult{URL: u, ProcessedAt: t}\<close>.\<close>

definition empty_result :: "string \<Rightarrow> int \<Rightarrow> CrawlResult" where
  "empty_result u t = \<lparr>rURL = u, StatusCode = 0, Title = [], Emails = [], Keywords = [],
     DeadLinks = [], DeadDomains = [], NewURLs = [], ProcessedAt = t, Error = []\<rparr>"

section \<open>Strings (the functions of Go's \<open>strings\<close> package that the code calls)\<close>

definition HasPrefix :: "string \<Rightarrow> string \<Rightarrow> bool" where
  "HasPrefix s p = (take (length p) s = p)"

definition HasSuffix :: "string \<Rightarrow> string \<Rightarrow> bool" where
  "HasSuffix s p = (length p \<le> length s \<and> drop (length s - length p) s = p)"

fun Contains :: "string \<Rightarrow> string \<Rightarrow> bool" where
  "Contains [] sub = (sub = [])"
| "Contains (c # cs) sub = (HasPrefix (c # cs) sub \<or> Contains cs sub)"

text \<open>
  \<open>strings.ToLower\<close> on ASCII: the letters \<open>A\<close> to \<open>Z\<close> are mapped to lower case. (Go
  also folds the upper-case letters outside ASCII; the code applies \<open>ToLower\<close> to the
  Content-Type header only.)
\<close>

definition lower_char :: "char \<Rightarrow> char" where
  "lower_char c =
     (case map_of (zip ''ABCDEFGHIJKLMNOPQRSTUVWXYZ'' ''abcdefghijklmnopqrstuvwxyz'') c of
        Some d \<Rightarrow> d | None \<Rightarrow> c)"

definition ToLower :: "string \<Rightarrow> string" where
  "ToLower s = map lower_char s"

text \<open>
  \<open>strings.TrimSpace\<close>. A Go string is a sequence of bytes, and \<open>TrimSpace\<close> removes the
  leading and the trailing runes of which \<open>unicode.IsSpace\<close> holds: tab, line feed,
  vertical tab, form feed, carriage return, space, U+0085, U+00A0, U+1680, U+2000 to U+200A,
  U+2028, U+2029, U+202F, U+205F and U+3000. \<open>space_runes\<close> lists their UTF-8 encodings.
  The first rune that Go decodes from a string is one of them exactly when the string
  starts with its encoding, and the last rune exactly when the string ends with it (bytes
  that are not well-formed UTF-8 decode to U+FFFD, which is not white space).
\<close>

definition space_runes :: "string list" where
  "space_runes =
     [[CHR 0x09], [CHR 0x0A], [CHR 0x0B], [CHR 0x0C], [CHR 0x0D], [CHR 0x20],
      [CHR 0xC2, CHR 0x85], [CHR 0xC2, CHR 0xA0],
      [CHR 0xE1, CHR 0x9A, CHR 0x80],
      [CHR 0xE2, CHR 0x80, CHR 0x80], [CHR 0xE2, CHR 0x80, CHR 0x81],
      [CHR 0xE2, CHR 0x80, CHR 0x82], [CHR 0xE2, CHR 0x80, CHR 0x83],
      [CHR 0xE2, CHR 0x80, CHR 0x84], [CHR 0xE2, CHR 0x80, CHR 0x85],
      [CHR 0xE2, CHR 0x80, CHR 0x86], [CHR 0xE2, CHR 0x80, CHR 0x87],
      [CHR 0xE2, CHR 0x80, CHR 0x88], [CHR 0xE2, CHR 0x80, CHR 0x89],
      [CHR 0xE2, CHR 0x80, CHR 0x8A],
      [CHR 0xE2, CHR 0x80, CHR 0xA8], [CHR 0xE2, CHR 0x80, CHR 0xA9],
      [CHR 0xE2, CHR 0x80, CHR 0xAF], [CHR 0xE2, CHR 0x81, CHR 0x9F],
      [CHR 0xE3, CHR 0x80, CHR 0x80]]"

text \<open>The number of bytes of the white-space rune at the start (the end); 0 when none.\<close>

definition leading_space :: "string \<Rightarrow> nat" where
  "leading_space s = (case find (HasPrefix s) space_runes of Some r \<Rightarrow> length r | None \<Rightarrow> 0)"

definition trailing_space :: "string \<Rightarrow> nat" where
  "trailing_space s = (case find (HasSuffix s) space_runes of Some r \<Rightarrow> length r | None \<Rightarrow> 0)"

function TrimLeftSpace :: "string \<Rightarrow> string" where
  "TrimLeftSpace s =
     (if s = [] \<or> leading_space s = 0 then s else TrimLeftSpace (drop (leading_space s) s))"
  by pat_completeness auto
termination
  by (relation "measure length") auto

function TrimRightSpace :: "string \<Rightarrow> string" where
  "TrimRightSpace s =
     (if s = [] \<or> trailing_space s = 0 then s
      else TrimRightSpace (take (length s - trailing_space s) s))"
  by pat_completeness auto
termination
  by (relation "measure length") auto

declare TrimLeftSpace.simps [simp del] TrimRightSpace.simps [simp del]

definition TrimSpace :: "string \<Rightarrow> string" where
  "TrimSpace s = TrimRightSpace (TrimLeftSpace s)"

text \<open>\<open>strings.Cut(s, sep)\<close> for a one-byte separator: before, after, found.\<close>

definition Cut :: "string \<Rightarrow> char \<Rightarrow> string \<times> string \<times> bool" where
  "Cut s c =
     (let b = takeWhile (\<lambda>x. x \<noteq> c) s
      in if length b < length s then (b, drop (length b + 1) s, True) else (s, [], False))"

section \<open>URLs (Go's \<open>net/url\<close>)\<close>

record net_URL =
  Scheme :: string
  Opaque :: string
  Host :: string
  Path :: string
  RawQuery :: string
  Fragment :: string

definition empty_URL :: net_URL where
  "empty_URL = \<lparr>Scheme = [], Opaque = [], Host = [], Path = [], RawQuery = [], Fragment = []\<rparr>"

text \<open>
  The repository calls \<open>url.Parse\<close> of the standard library. Every function below that
  parses a URL takes the parser as its first argument, \<open>None\<close> standing for a returned
  error, and every general statement holds for any parser. \<open>go_url_Parse\<close> follows
  \<open>net/url.Parse\<close> (\<open>getScheme\<close>, the query and fragment cuts, opaque URLs, the colon
  check on the first path segment, the authority split) and instantiates the parser at
  concrete inputs. It does not validate or decode percent-escapes and does not validate the
  host (ports, IPv6 literals, forbidden bytes); the concrete inputs used are free of these.
\<close>

definition stringContainsCTLByte :: "string \<Rightarrow> bool" where
  "stringContainsCTLByte s = list_ex (\<lambda>c. c < CHR '' '' \<or> c = CHR 0x7F) s"

definition is_alpha :: "char \<Rightarrow> bool" where
  "is_alpha c = ((CHR ''a'' \<le> c \<and> c \<le> CHR ''z'') \<or> (CHR ''A'' \<le> c \<and> c \<le> CHR ''Z''))"

definition is_scheme_extra :: "char \<Rightarrow> bool" where
  "is_scheme_extra c =
     ((CHR ''0'' \<le> c \<and> c \<le> CHR ''9'') \<or> c = CHR ''+'' \<or> c = CHR ''-'' \<or> c = CHR ''.'')"

text \<open>
  \<open>getScheme\<close>: the loop over the bytes of \<open>rawURL\<close>; \<open>acc\<close> is \<open>rawURL[:i]\<close>.
  \<open>None\<close> is the error "missing protocol scheme".
\<close>

fun getScheme_from :: "string \<Rightarrow> string \<Rightarrow> string \<Rightarrow> (string \<times> string) option" where
  "getScheme_from rawURL acc [] = Some ([], rawURL)"
| "getScheme_from rawURL acc (c # cs) =
     (if is_alpha c then getScheme_from rawURL (acc @ [c]) cs
      else if is_scheme_extra c
           then (if acc = [] then Some ([], rawURL) else getScheme_from rawURL (acc @ [c]) cs)
      else if c = CHR '':''
           then (if acc = [] then None else Some (acc, cs))
      else Some ([], rawURL))"

definition getScheme :: "string \<Rightarrow> (string \<times> string) option" where
  "getScheme rawURL = getScheme_from rawURL [] rawURL"

text \<open>\<open>parseAuthority\<close>: the host is what follows the last \<open>@\<close>.\<close>

definition authority_host :: "string \<Rightarrow> string" where
  "authority_host a = rev (takeWhile (\<lambda>x. x \<noteq> CHR ''@'') (rev a))"

definition net_url_parse :: "string \<Rightarrow> net_URL option" where
  "net_url_parse rawURL =
    (if stringContainsCTLByte rawURL then None
     else if rawURL = ''*'' then Some (empty_URL\<lparr>Path := ''*''\<rparr>)
     else case getScheme rawURL of
        None \<Rightarrow> None
      | Some (scheme, rest0) \<Rightarrow>
         (let (rest, query) =
                (if HasSuffix rest0 ''?'' \<and> count_list rest0 (CHR ''?'') = 1
                 then (butlast rest0, [])
                 else (fst (Cut rest0 (CHR ''?'')), fst (snd (Cut rest0 (CHR ''?'')))));
              u = empty_URL\<lparr>Scheme := ToLower scheme, RawQuery := query\<rparr>
          in if \<not> HasPrefix rest ''/'' \<and> Scheme u \<noteq> [] then Some (u\<lparr>Opaque := rest\<rparr>)
             else if \<not> HasPrefix rest ''/'' \<and> CHR '':'' \<in> set (fst (Cut rest (CHR ''/'')))
                  then None
             else if (Scheme u \<noteq> [] \<or> \<not> HasPrefix rest ''///'') \<and> HasPrefix rest ''//''
                  then (let a = drop 2 rest
                        in Some (u\<lparr>Host := authority_host (takeWhile (\<lambda>x. x \<noteq> CHR ''/'') a),
                                   Path := dropWhile (\<lambda>x. x \<noteq> CHR ''/'') a\<rparr>))
             else Some (u\<lparr>Path := rest\<rparr>)))"

definition go_url_Parse :: "string \<Rightarrow> net_URL option" where
  "go_url_Parse rawURL =
     (case net_url_parse (fst (Cut rawURL (CHR ''#''))) of
        None \<Rightarrow> None
      | Some u \<Rightarrow> Some (u\<lparr>Fragment := fst (snd (Cut rawURL (CHR ''#'')))\<rparr>))"

text \<open>\<open>domain.IsValidURL\<close> and \<open>domain.GetDomain\<close> (crawler.go lines 117-138).\<close>

definition IsValidURL :: "(string \<Rightarrow> net_URL option) \<Rightarrow> string \<Rightarrow> bool" where
  "IsValidURL parse urlStr =
     (if urlStr = [] then False
      else case parse urlStr of
             None \<Rightarrow> False
           | Some u \<Rightarrow> Scheme u = ''http'' \<or> Scheme u = ''https'')"

definition GetDomain :: "(string \<Rightarrow> net_URL option) \<Rightarrow> string \<Rightarrow> string" where
  "GetDomain parse urlStr = (case parse urlStr of None \<Rightarrow> [] | Some u \<Rightarrow> Host u)"

section \<open>The priority queue (pkg/queue/priority_queue.go)\<close>

subsection \<open>\<open>urlHeap\<close> and Go's \<open>container/heap\<close>\<close>

text \<open>
  A \<open>urlItem\<close> carries the task and its priority. Its \<open>index\<close> field is written by
  \<open>Swap\<close>, \<open>Push\<close> and \<open>Pop\<close> and never read; it is left out. Slice indices are
  \<open>nat\<close>: the parent index \<open>(j - 1) / 2\<close> of Go truncates towards zero, so it is 0 for
  \<open>j = 0\<close>, as \<open>(j - 1) div 2\<close> on \<open>nat\<close>.
\<close>

record urlItem =
  task :: URLTask
  priority :: int

type_synonym urlHeap = "urlItem list"

definition Less :: "urlHeap \<Rightarrow> nat \<Rightarrow> nat \<Rightarrow> bool" where
  "Less h i j = (priority (h ! i) < priority (h ! j))"

definition Swap :: "urlHeap \<Rightarrow> nat \<Rightarrow> nat \<Rightarrow> urlHeap" where
  "Swap h i j = h[i := h ! j, j := h ! i]"

text \<open>\<open>heap.up\<close> and \<open>heap.down\<close> of \<open>container/heap\<close>, over \<open>Less\<close> and \<open>Swap\<close>.\<close>

function up :: "urlHeap \<Rightarrow> nat \<Rightarrow> urlHeap" where
  "up h j =
     (let i = (j - 1) div 2
      in if i = j \<or> \<not> Less h j i then h else up (Swap h i j) i)"
  by pat_completeness auto
termination
  by (relation "measure (\<lambda>(h, j). j)") auto

function down :: "urlHeap \<Rightarrow> nat \<Rightarrow> nat \<Rightarrow> urlHeap" where
  "down h i n =
     (let j1 = 2 * i + 1
      in if j1 \<ge> n then h
         else let j = (if j1 + 1 < n \<and> Less h (j1 + 1) j1 then j1 + 1 else j1)
              in if \<not> Less h j i then h else down (Swap h i j) j n)"
  by pat_completeness auto
termination
  by (relation "measure (\<lambda>(h, i, n). n - i)") auto

declare up.simps [simp del] down.simps [simp del]

text \<open>
  \<open>heap.Push(h, x)\<close> appends (\<open>urlHeap.Push\<close>) and sifts up; \<open>heap.Pop(h)\<close> swaps the
  root with the last element, sifts down over the first \<open>n\<close> elements and removes the last
  one (\<open>urlHeap.Pop\<close>). \<open>heap.Pop\<close> panics on an empty heap; the queue calls it on a
  non-empty heap only.
\<close>

definition heap_Push :: "urlHeap \<Rightarrow> urlItem \<Rightarrow> urlHeap" where
  "heap_Push h x = up (h @ [x]) (length (h @ [x]) - 1)"

definition heap_Pop :: "urlHeap \<Rightarrow> urlHeap \<times> urlItem" where
  "heap_Pop h =
     (let n = length h - 1; h1 = down (Swap h 0 n) 0 n
      in (butlast h1, last h1))"

subsection \<open>\<open>PriorityURLQueue\<close>\<close>

datatype QueueError = ErrQueueFull | ErrQueueEmpty

definition MaxQueueSize :: int where
  "MaxQueueSize = 100000"

record PriorityURLQueue =
  heap :: urlHeap
  maxSize :: int
  refillThreshold :: int
  refilling :: bool

text \<open>\<open>int(float64(MaxQueueSize) * RefillThreshold)\<close> is 20000.\<close>

definition NewPriorityURLQueue :: PriorityURLQueue where
  "NewPriorityURLQueue =
     \<lparr>heap = [], maxSize = MaxQueueSize, refillThreshold = 20000, refilling = False\<rparr>"

text \<open>
  \<open>int64(task.Depth*1000) + task.Timestamp.Unix()\<close> in 64-bit two's complement
  arithmetic.
\<close>

definition wrap64 :: "int \<Rightarrow> int" where
  "wrap64 x = (x + 2 ^ 63) mod 2 ^ 64 - 2 ^ 63"

definition task_priority :: "URLTask \<Rightarrow> int" where
  "task_priority t = wrap64 (wrap64 (Depth t * 1000) + Timestamp t)"

text \<open>The values of a signed 64-bit integer.\<close>

definition in_int64 :: "int \<Rightarrow> bool" where
  "in_int64 x = (- (2 ^ 63) \<le> x \<and> x < 2 ^ 63)"

definition Push :: "PriorityURLQueue \<Rightarrow> URLTask \<Rightarrow> PriorityURLQueue \<times> QueueError option" where
  "Push q t =
     (if int (length (heap q)) \<ge> maxSize q then (q, Some ErrQueueFull)
      else (q\<lparr>heap := heap_Push (heap q) \<lparr>task = t, priority = task_priority t\<rparr>\<rparr>, None))"

text \<open>
  \<open>Pop\<close> returns the new queue, the task or the error, and whether it started the refill
  goroutine (\<open>go q.refillFromDB()\<close>).
\<close>

definition Pop :: "PriorityURLQueue \<Rightarrow> PriorityURLQueue \<times> (QueueError + URLTask) \<times> bool" where
  "Pop q =
     (if length (heap q) = 0 then (q, Inl ErrQueueEmpty, False)
      else let (h', item) = heap_Pop (heap q)
           in (q\<lparr>heap := h'\<rparr>, Inr (task item),
               int (length h') < refillThreshold q \<and> \<not> refilling q))"

definition Size :: "PriorityURLQueue \<Rightarrow> int" where
  "Size q = int (length (heap q))"

definition IsFull :: "PriorityURLQueue \<Rightarrow> bool" where
  "IsFull q = (int (length (heap q)) \<ge> maxSize q)"

definition Close :: "PriorityURLQueue \<Rightarrow> PriorityURLQueue" where
  "Close q = q\<lparr>heap := []\<rparr>"

text \<open>The operations on a queue, and a run of them from a given queue.\<close>

datatype queue_op = OpPush URLTask | OpPop | OpClose | OpRefilling bool

fun queue_step :: "queue_op \<Rightarrow> PriorityURLQueue \<Rightarrow> PriorityURLQueue" where
  "queue_step (OpPush t) q = fst (Push q t)"
| "queue_step OpPop q = fst (Pop q)"
| "queue_step OpClose q = Close q"
| "queue_step (OpRefilling b) q = q\<lparr>refilling := b\<rparr>"

definition queue_run :: "queue_op list \<Rightarrow> PriorityURLQueue \<Rightarrow> PriorityURLQueue" where
  "queue_run ops q = fold queue_step ops q"

subsection \<open>The heap order\<close>

definition parent :: "nat \<Rightarrow> nat" where
  "parent j = (j - 1) div 2"

definition heap_upto :: "urlHeap \<Rightarrow> nat \<Rightarrow> bool" where
  "heap_upto h n = (\<forall>k. 0 < k \<and> k < n \<longrightarrow> priority (h ! parent k) \<le> priority (h ! k))"

definition heap_ok :: "urlHeap \<Rightarrow> bool" where
  "heap_ok h = heap_upto h (length h)"

definition up_inv :: "urlHeap \<Rightarrow> nat \<Rightarrow> bool" where
  "up_inv h j = (j < length h
     \<and> (\<forall>k. 0 < k \<and> k < length h \<and> k \<noteq> j \<longrightarrow> priority (h ! parent k) \<le> priority (h ! k))
     \<and> (\<forall>k. 0 < k \<and> k < length h \<and> parent k = j \<and> 0 < j
           \<longrightarrow> priority (h ! parent j) \<le> priority (h ! k)))"

definition down_inv :: "urlHeap \<Rightarrow> nat \<Rightarrow> nat \<Rightarrow> bool" where
  "down_inv h i n = (n \<le> length h
     \<and> (\<forall>k. 0 < k \<and> k < n \<and> parent k \<noteq> i \<longrightarrow> priority (h ! parent k) \<le> priority (h ! k))
     \<and> (\<forall>k. 0 < k \<and> k < n \<and> parent k = i \<and> 0 < i
           \<longrightarrow> priority (h ! parent i) \<le> priority (h ! k)))"

definition child :: "urlHeap \<Rightarrow> nat \<Rightarrow> nat \<Rightarrow> nat" where
  "child h i n =
     (if 2 * i + 2 < n \<and> Less h (2 * i + 2) (2 * i + 1) then 2 * i + 2 else 2 * i + 1)"

text \<open>
  The invariant of a queue: the slice is a heap, it holds at most \<open>maxSize\<close> items, and
  every item carries the priority computed from its task.
\<close>

definition queue_inv :: "PriorityURLQueue \<Rightarrow> bool" where
  "queue_inv q = (heap_ok (heap q) \<and> int (length (heap q)) \<le> maxSize q
     \<and> list_all (\<lambda>it. priority it = task_priority (task it)) (heap q))"

section \<open>The persistent store (pkg/storage, BadgerStorage)\<close>

text \<open>
  A Badger database is a finite map from keys to values, iterated in the bytewise order of
  its keys: an association list kept sorted by key. Transactions of the modelled code are
  single-key writes, prefix scans and batched deletes; they are taken to commit (the
  \<open>err == nil\<close> branches of the source). A stored value is represented by what
  \<open>json.Unmarshal\<close> makes of it: the task it decodes to, or a decoding error.
\<close>

datatype stored_value = TaskJSON URLTask | Undecodable

datatype StorageError = SerializationError

definition URLPrefix :: string where
  "URLPrefix = ''url:''"

definition ResultPrefix :: string where
  "ResultPrefix = ''result:''"

record BadgerStorage =
  urlDB :: "(string \<times> stored_value) list"
  resultsDB :: "((string \<times> int) \<times> CrawlResult) list"
  metrics :: CrawlMetrics

definition new_storage :: BadgerStorage where
  "new_storage = \<lparr>urlDB = [], resultsDB = [], metrics = zero_metrics\<rparr>"

fun db_put :: "string \<Rightarrow> 'v \<Rightarrow> (string \<times> 'v) list \<Rightarrow> (string \<times> 'v) list" where
  "db_put k v [] = [(k, v)]"
| "db_put k v ((k', v') # kvs) =
     (if k = k' then (k, v) # kvs
      else if k < k' then (k, v) # (k', v') # kvs
      else (k', v') # db_put k v kvs)"

definition db_delete :: "string \<Rightarrow> (string \<times> 'v) list \<Rightarrow> (string \<times> 'v) list" where
  "db_delete k kvs = filter (\<lambda>kv. fst kv \<noteq> k) kvs"

definition db_inv :: "(string \<times> 'v) list \<Rightarrow> bool" where
  "db_inv kvs = (sorted (map fst kvs) \<and> distinct (map fst kvs))"

subsection \<open>What \<open>encoding/json\<close> makes of a task\<close>

text \<open>
  \<open>json.Marshal\<close> writes a string rune by rune. Bytes that do not start a well-formed
  UTF-8 sequence are written as U+FFFD, one replacement per byte; everything else is
  written, raw or escaped, so that \<open>json.Unmarshal\<close> reads it back. \<open>rune_width\<close> is the
  number of bytes of the well-formed sequence at the start of a string (the second value of
  \<open>utf8.DecodeRuneInString\<close>), and 0 where Go reports \<open>RuneError\<close> with width 1.
\<close>

definition byte_in :: "nat \<Rightarrow> nat \<Rightarrow> char \<Rightarrow> bool" where
  "byte_in lo hi c = (lo \<le> of_char c \<and> of_char c \<le> hi)"

definition rune_width :: "string \<Rightarrow> nat" where
  "rune_width s =
     (case s of
        [] \<Rightarrow> 0
      | c # r \<Rightarrow>
          if byte_in 0x00 0x7F c then 1
          else if byte_in 0xC2 0xDF c
          then (if 1 \<le> length r \<and> byte_in 0x80 0xBF (r ! 0) then 2 else 0)
          else if byte_in 0xE0 0xEF c
          then (if 2 \<le> length r
                   \<and> byte_in (if c = CHR 0xE0 then 0xA0 else 0x80)
                        (if c = CHR 0xED then 0x9F else 0xBF) (r ! 0)
                   \<and> byte_in 0x80 0xBF (r ! 1)
                then 3 else 0)
          else if byte_in 0xF0 0xF4 c
          then (if 3 \<le> length r
                   \<and> byte_in (if c = CHR 0xF0 then 0x90 else 0x80)
                        (if c = CHR 0xF4 then 0x8F else 0xBF) (r ! 0)
                   \<and> byte_in 0x80 0xBF (r ! 1) \<and> byte_in 0x80 0xBF (r ! 2)
                then 4 else 0)
          else 0)"

text \<open>The UTF-8 encoding of U+FFFD.\<close>

definition replacement_rune :: string where
  "replacement_rune = [CHR 0xEF, CHR 0xBF, CHR 0xBD]"

text \<open>
  The string that is read back from the JSON text of a string. The first argument counts
  the bytes still to copy of the well-formed sequence that is being written.
\<close>

fun json_from :: "nat \<Rightarrow> string \<Rightarrow> string" where
  "json_from k [] = []"
| "json_from k (c # s) =
     (if 0 < k then c # json_from (k - 1) s
      else if rune_width (c # s) = 0 then replacement_rune @ json_from 0 s
      else c # json_from (rune_width (c # s) - 1) s)"

definition json_string :: "string \<Rightarrow> string" where
  "json_string s = json_from 0 s"

text \<open>
  The task that \<open>json.Unmarshal\<close> reads from \<open>json.Marshal task\<close>: depth, retries and the
  instant of the timestamp are kept. (\<open>Marshal\<close> fails on a timestamp whose year is
  outside 0 to 9999 only; the timestamps of the tasks are readings of \<open>time.Now\<close>.)
\<close>

definition json_task :: "URLTask \<Rightarrow> URLTask" where
  "json_task t = t\<lparr>URL := json_string (URL t)\<rparr>"

text \<open>
  \<open>StoreURL\<close> (collector.go lines 361-373): the key is the prefix followed by the URL of
  the task as it is, the value is the JSON text of the task.
\<close>

definition StoreURL :: "URLTask \<Rightarrow> BadgerStorage \<Rightarrow> BadgerStorage" where
  "StoreURL t s =
     s\<lparr>urlDB := db_put (URLPrefix @ URL t) (TaskJSON (json_task t)) (urlDB s)\<rparr>"

text \<open>
  \<open>GetURLs\<close> (collector.go lines 375-415). \<open>Seek\<close> positions the iterator at the first
  key not below the prefix; the loop runs while the key has the prefix and fewer than
  \<open>limit\<close> entries were read, and stops with the error of the first value that does not
  decode.
\<close>

definition Seek :: "string \<Rightarrow> (string \<times> 'v) list \<Rightarrow> (string \<times> 'v) list" where
  "Seek p kvs = dropWhile (\<lambda>kv. fst kv < p) kvs"

fun scan_urls ::
  "string \<Rightarrow> int \<Rightarrow> int \<Rightarrow> (string \<times> stored_value) list \<Rightarrow> URLTask list
     \<Rightarrow> URLTask list \<times> StorageError option" where
  "scan_urls p limit cnt [] tasks = (tasks, None)"
| "scan_urls p limit cnt ((k, v) # kvs) tasks =
     (if HasPrefix k p \<and> cnt < limit
      then (case v of
              Undecodable \<Rightarrow> (tasks, Some SerializationError)
            | TaskJSON t \<Rightarrow> scan_urls p limit (cnt + 1) kvs (tasks @ [t]))
      else (tasks, None))"

definition deleteURLsBatch ::
  "URLTask list \<Rightarrow> (string \<times> stored_value) list \<Rightarrow> (string \<times> stored_value) list" where
  "deleteURLsBatch tasks kvs = fold (\<lambda>t. db_delete (URLPrefix @ URL t)) tasks kvs"

definition GetURLs ::
  "int \<Rightarrow> BadgerStorage \<Rightarrow> URLTask list \<times> StorageError option \<times> BadgerStorage" where
  "GetURLs limit s =
     (let (tasks, err) = scan_urls URLPrefix limit 0 (Seek URLPrefix (urlDB s)) []
      in (tasks, err,
          if err = None \<and> length tasks > 0
          then s\<lparr>urlDB := deleteURLsBatch tasks (urlDB s)\<rparr> else s))"

text \<open>The backlog namespace: the entries whose key has the prefix, in key order.\<close>

definition backlog :: "(string \<times> stored_value) list \<Rightarrow> (string \<times> stored_value) list" where
  "backlog kvs = filter (\<lambda>kv. HasPrefix (fst kv) URLPrefix) kvs"

definition other_keys :: "(string \<times> stored_value) list \<Rightarrow> (string \<times> stored_value) list" where
  "other_keys kvs = filter (\<lambda>kv. \<not> HasPrefix (fst kv) URLPrefix) kvs"

text \<open>
  A backlog entry is well formed when its value decodes to a task and its key is the prefix
  followed by the URL of that task: the key that \<open>deleteURLsBatch\<close> builds from the task.
  \<open>StoreURL\<close> writes such an entry for a task whose URL is well-formed UTF-8.
\<close>

fun entry_wf :: "string \<times> stored_value \<Rightarrow> bool" where
  "entry_wf (k, TaskJSON t) = (k = URLPrefix @ URL t)"
| "entry_wf (k, Undecodable) = False"

definition backlog_wf :: "(string \<times> stored_value) list \<Rightarrow> bool" where
  "backlog_wf kvs = list_all entry_wf (backlog kvs)"

fun entry_task :: "string \<times> stored_value \<Rightarrow> URLTask" where
  "entry_task (k, TaskJSON t) = t"
| "entry_task (k, Undecodable) = \<lparr>URL = [], Depth = 0, Timestamp = 0, Retries = 0\<rparr>"

subsection \<open>\<open>StoreResult\<close> (collector.go lines 429-463)\<close>

text \<open>
  The key of a result is \<open>result:<URL>_<unix second>\<close>. The decimal rendering of the
  second is not modelled: a key is the pair of the prefixed URL and the second, which
  identifies the same records. A later write under an existing key replaces the record.
\<close>

definition result_key :: "CrawlResult \<Rightarrow> string \<times> int" where
  "result_key r = (ResultPrefix @ rURL r, ProcessedAt r)"

fun results_set :: "'k \<Rightarrow> 'v \<Rightarrow> ('k \<times> 'v) list \<Rightarrow> ('k \<times> 'v) list" where
  "results_set k v [] = [(k, v)]"
| "results_set k v ((k', v') # kvs) =
     (if k = k' then (k, v) # kvs else (k', v') # results_set k v kvs)"

definition bump_findings :: "CrawlResult \<Rightarrow> CrawlMetrics \<Rightarrow> CrawlMetrics" where
  "bump_findings r m =
    (let m1 = m\<lparr>URLsProcessed := URLsProcessed m + 1\<rparr>;
         m2 = (if length (Emails r) > 0
               then m1\<lparr>EmailsFound := EmailsFound m1 + int (length (Emails r))\<rparr> else m1);
         m3 = (if length (Keywords r) > 0
               then m2\<lparr>KeywordsFound := KeywordsFound m2 + int (length (Keywords r))\<rparr> else m2);
         m4 = (if length (DeadLinks r) > 0
               then m3\<lparr>DeadLinksFound := DeadLinksFound m3 + int (length (DeadLinks r))\<rparr> else m3);
         m5 = (if length (DeadDomains r) > 0
               then m4\<lparr>DeadDomainsFound := DeadDomainsFound m4 + int (length (DeadDomains r))\<rparr>
               else m4)
     in if Error r \<noteq> [] then m5\<lparr>Errors := Errors m5 + 1\<rparr> else m5)"

definition StoreResult :: "CrawlResult \<Rightarrow> BadgerStorage \<Rightarrow> BadgerStorage" where
  "StoreResult r s =
     s\<lparr>resultsDB := results_set (result_key r) r (resultsDB s),
       metrics := bump_findings r (metrics s)\<rparr>"

text \<open>Persisting a sequence of results, one \<open>StoreResult\<close> call each, in order.\<close>

definition store_results :: "CrawlResult list \<Rightarrow> BadgerStorage \<Rightarrow> BadgerStorage" where
  "store_results rs s = fold StoreResult rs s"

text \<open>The sum of the per-keyword counts of a result, as the worker computes it.\<close>

definition keyword_total :: "CrawlResult \<Rightarrow> int" where
  "keyword_total r = sum_list (map snd (Keywords r))"

subsection \<open>\<open>FastFileStorage.StoreResult\<close> (pkg/storage/file_storage.go lines 60-79)\<close>

record FastFileStorage =
  written :: "CrawlResult list"
  fmetrics :: CrawlMetrics

definition FastStoreResult :: "CrawlResult \<Rightarrow> FastFileStorage \<Rightarrow> FastFileStorage" where
  "FastStoreResult r s =
    (let m1 = (fmetrics s)\<lparr>URLsProcessed := URLsProcessed (fmetrics s) + 1\<rparr>;
         m2 = (if length (Emails r) > 0
               then m1\<lparr>EmailsFound := EmailsFound m1 + int (length (Emails r))\<rparr> else m1);
         m3 = (if length (Keywords r) > 0
               then m2\<lparr>KeywordsFound := KeywordsFound m2 + int (length (Keywords r))\<rparr> else m2)
     in s\<lparr>written := written s @ [r], fmetrics := m3\<rparr>)"

section \<open>The metrics collector (pkg/metrics/collector.go)\<close>

definition UpdateURLsProcessed :: "int \<Rightarrow> CrawlMetrics \<Rightarrow> CrawlMetrics" where
  "UpdateURLsProcessed delta m = m\<lparr>URLsProcessed := URLsProcessed m + delta\<rparr>"

definition UpdateEmailsFound :: "int \<Rightarrow> CrawlMetrics \<Rightarrow> CrawlMetrics" where
  "UpdateEmailsFound delta m = m\<lparr>EmailsFound := EmailsFound m + delta\<rparr>"

definition UpdateKeywordsFound :: "int \<Rightarrow> CrawlMetrics \<Rightarrow> CrawlMetrics" where
  "UpdateKeywordsFound delta m = m\<lparr>KeywordsFound := KeywordsFound m + delta\<rparr>"

definition UpdateLinksChecked :: "int \<Rightarrow> CrawlMetrics \<Rightarrow> CrawlMetrics" where
  "UpdateLinksChecked delta m = m\<lparr>LinksChecked := LinksChecked m + delta\<rparr>"

definition UpdateDeadLinksFound :: "int \<Rightarrow> CrawlMetrics \<Rightarrow> CrawlMetrics" where
  "UpdateDeadLinksFound delta m = m\<lparr>DeadLinksFound := DeadLinksFound m + delta\<rparr>"

definition UpdateDeadDomainsFound :: "int \<Rightarrow> CrawlMetrics \<Rightarrow> CrawlMetrics" where
  "UpdateDeadDomainsFound delta m = m\<lparr>DeadDomainsFound := DeadDomainsFound m + delta\<rparr>"

definition UpdateErrors :: "int \<Rightarrow> CrawlMetrics \<Rightarrow> CrawlMetrics" where
  "UpdateErrors delta m = m\<lparr>Errors := Errors m + delta\<rparr>"

section \<open>The environment and the state of the engine\<close>

text \<open>
  What the code obtains from outside the repository is a field of the environment:
  the URL parser, the hash collisions of the Bloom filter library, the answers of the
  network (robots.txt retrieval, page GET, link HEAD), the rate limiter, the clock, the
  random source, and the HTML-dependent extractors (regular expressions, goquery).
\<close>

datatype Group = Group (Test: "string \<Rightarrow> bool") (CrawlDelay: int)

datatype RobotsData = RobotsData (FindGroup: "string \<Rightarrow> Group option")

datatype http_get = GetErr | GetResp int string

datatype read_result = ReadOk string | ReadErr string

datatype http_outcome = NewRequestErr string | DoErr string | Resp int string read_result

datatype head_outcome = HeadNewRequestErr | HeadErr | HeadResp int

record env =
  url_Parse :: "string \<Rightarrow> net_URL option"
  bloom_collision :: "string list \<Rightarrow> string \<Rightarrow> bool"
  robots_Get :: "string \<Rightarrow> http_get"
  robots_FromResponse :: "int \<Rightarrow> string \<Rightarrow> RobotsData option"
  rate_Wait :: "string \<Rightarrow> bool"
  http_Do :: "string \<Rightarrow> http_outcome"
  head_Do :: "string \<Rightarrow> head_outcome"
  time_Now :: "nat \<Rightarrow> int"
  rand_Intn :: "nat \<Rightarrow> nat"
  ExtractTitle :: "string \<Rightarrow> string"
  ExtractEmails :: "string \<Rightarrow> string list"
  ExtractKeywords :: "string \<Rightarrow> string list \<Rightarrow> (string \<times> int) list"
  ExtractLinks :: "string \<Rightarrow> string \<Rightarrow> string list"

text \<open>
  The Bloom filter (pkg/bloom): the strings added, and the count. \<open>Test\<close> is true of every
  added string, and of the strings the library's hashes make collide with them.
\<close>

record URLBloomFilter =
  members :: "string list"
  count_added :: nat

definition bloom_Add :: "string \<Rightarrow> URLBloomFilter \<Rightarrow> URLBloomFilter" where
  "bloom_Add u b = b\<lparr>members := u # members b, count_added := count_added b + 1\<rparr>"

definition bloom_Test :: "env \<Rightarrow> URLBloomFilter \<Rightarrow> string \<Rightarrow> bool" where
  "bloom_Test e b u = (u \<in> set (members b) \<or> bloom_collision e (members b) u)"

text \<open>
  The content extractor's state: the buffered channel of link checks (capacity 1000), the
  two caches, and the HEAD requests its dead-link client has issued.
\<close>

record ContentExtractor =
  linkQueue :: "(string \<times> string) list"
  deadLinkCache :: "(string \<times> bool) list"
  deadDomainCache :: "(string \<times> bool) list"
  headLog :: "string list"

definition linkQueue_cap :: nat where
  "linkQueue_cap = 1000"

record world =
  URLQueue :: PriorityURLQueue
  BloomFilter :: URLBloomFilter
  Storage :: BadgerStorage
  RobotsCache :: "string \<rightharpoonup> RobotsData option"
  Extractor :: ContentExtractor
  Metrics :: CrawlMetrics
  getLog :: "string list"
  ticks :: nat

text \<open>\<open>time.Now()\<close>: the next reading of the clock.\<close>

definition now :: "env \<Rightarrow> world \<Rightarrow> int \<times> world" where
  "now e w = (time_Now e (ticks w), w\<lparr>ticks := ticks w + 1\<rparr>)"

section \<open>The robots checker (internal/infrastructure, RobotsChecker)\<close>

text \<open>
  A cache entry is \<open>Some None\<close> for a cached nil pointer (the retrieval failed),
  \<open>Some (Some r)\<close> for parsed rules; no entry is \<open>None\<close>.
\<close>

definition robots_after ::
  "env \<Rightarrow> string \<Rightarrow> int \<Rightarrow> string \<Rightarrow> (string \<rightharpoonup> RobotsData option)
     \<Rightarrow> RobotsData option \<times> (string \<rightharpoonup> RobotsData option)" where
  "robots_after e domain status body cache =
     (if status \<noteq> 200 then (None, cache(domain \<mapsto> None))
      else case robots_FromResponse e status body of
             None \<Rightarrow> (None, cache(domain \<mapsto> None))
           | Some r \<Rightarrow> (Some r, cache(domain \<mapsto> Some r)))"

definition getRobots ::
  "env \<Rightarrow> string \<Rightarrow> (string \<rightharpoonup> RobotsData option)
     \<Rightarrow> RobotsData option \<times> (string \<rightharpoonup> RobotsData option)" where
  "getRobots e domain cache =
     (case cache domain of
        Some robots \<Rightarrow> (robots, cache)
      | None \<Rightarrow>
         (case robots_Get e (''https://'' @ domain @ ''/robots.txt'') of
            GetResp status body \<Rightarrow> robots_after e domain status body cache
          | GetErr \<Rightarrow>
             (case robots_Get e (''http://'' @ domain @ ''/robots.txt'') of
                GetErr \<Rightarrow> (None, cache(domain \<mapsto> None))
              | GetResp status body \<Rightarrow> robots_after e domain status body cache)))"

definition CanFetch ::
  "env \<Rightarrow> string \<Rightarrow> string \<Rightarrow> (string \<rightharpoonup> RobotsData option)
     \<Rightarrow> bool \<times> (string \<rightharpoonup> RobotsData option)" where
  "CanFetch e userAgent urlStr cache =
     (case url_Parse e urlStr of
        None \<Rightarrow> (False, cache)
      | Some u \<Rightarrow>
         (let (robots, cache') = getRobots e (Host u) cache
          in case robots of
               None \<Rightarrow> (True, cache')
             | Some r \<Rightarrow>
                (let group = (case FindGroup r userAgent of
                                None \<Rightarrow> FindGroup r ''*''
                              | Some g \<Rightarrow> Some g)
                 in case group of
                      None \<Rightarrow> (True, cache')
                    | Some g \<Rightarrow> (Test g (Path u), cache'))))"

section \<open>The content extractor's dead-link pipeline (internal/infrastructure/extractor.go)\<close>

text \<open>
  \<open>sampleLinks\<close>: \<open>int(float64(len(links)) * percentage)\<close> is computed here on the
  rationals. For the only percentage the code passes, \<open>0.2\<close>, the float64 product
  truncates to \<open>len(links) div 5\<close> (the double nearest to 0.2 exceeds 1/5 by
  \<open>2\<^sup>-\<^sup>5\<^sup>4 / 5\<close>, less than half a unit in the last place of the product), as the
  rational one does. The Fisher-Yates loop draws \<open>rand.Intn(i + 1)\<close>, a number below
  \<open>i + 1\<close>.
\<close>

fun shuffle_from :: "(nat \<Rightarrow> nat) \<Rightarrow> nat \<Rightarrow> string list \<Rightarrow> string list" where
  "shuffle_from rnd 0 xs = xs"
| "shuffle_from rnd (Suc i) xs =
     (let j = rnd (Suc i + 1) mod (Suc i + 1)
      in shuffle_from rnd i (xs[Suc i := xs ! j, j := xs ! Suc i]))"

definition sampleLinks :: "env \<Rightarrow> string list \<Rightarrow> rat \<Rightarrow> string list" where
  "sampleLinks e links percentage =
     (if percentage \<ge> 1 then links
      else let n0 = nat \<lfloor>of_nat (length links) * percentage\<rfloor>;
               numToSample = (if n0 = 0 \<and> length links > 0 then 1 else n0);
               shuffled = shuffle_from (rand_Intn e) (length links - 1) links
           in take numToSample shuffled)"

text \<open>The non-blocking send on the channel: the link is dropped when the buffer is full.\<close>

fun queueLinksForChecking ::
  "string list \<Rightarrow> string \<Rightarrow> ContentExtractor \<Rightarrow> ContentExtractor" where
  "queueLinksForChecking [] sourceURL x = x"
| "queueLinksForChecking (link # links) sourceURL x =
     queueLinksForChecking links sourceURL
       (if length (linkQueue x) < linkQueue_cap
        then x\<lparr>linkQueue := linkQueue x @ [(link, sourceURL)]\<rparr> else x)"

definition CheckDeadLinks ::
  "env \<Rightarrow> string list \<Rightarrow> string \<Rightarrow> ContentExtractor
     \<Rightarrow> string list \<times> string list \<times> ContentExtractor" where
  "CheckDeadLinks e links sourceURL x =
     (let sampledLinks = sampleLinks e links (2 / 10)
      in ([], [], queueLinksForChecking sampledLinks sourceURL x))"

text \<open>
  The background worker's probes: \<open>isDomainDead\<close>, \<open>isDeadLinkFast\<close> and
  \<open>processLinkAsync\<close>, which takes one request from the channel's consumer side.
\<close>

definition cacheDomainStatus :: "string \<Rightarrow> bool \<Rightarrow> ContentExtractor \<Rightarrow> ContentExtractor" where
  "cacheDomainStatus domainName isDead x =
     x\<lparr>deadDomainCache := results_set domainName isDead
          (if length (deadDomainCache x) > 1000 then [] else deadDomainCache x)\<rparr>"

definition cacheDeadLink :: "string \<Rightarrow> bool \<Rightarrow> ContentExtractor \<Rightarrow> ContentExtractor" where
  "cacheDeadLink urlStr isDead x =
     x\<lparr>deadLinkCache := results_set urlStr isDead
          (if length (deadLinkCache x) > 5000 then [] else deadLinkCache x)\<rparr>"

definition isDomainDead :: "env \<Rightarrow> string \<Rightarrow> ContentExtractor \<Rightarrow> bool \<times> ContentExtractor" where
  "isDomainDead e domainName x =
     (case map_of (deadDomainCache x) domainName of
        Some cached \<Rightarrow> (cached, x)
      | None \<Rightarrow>
         (case head_Do e (''https://'' @ domainName) of
            HeadNewRequestErr \<Rightarrow> (True, cacheDomainStatus domainName True x)
          | HeadErr \<Rightarrow>
              (True, cacheDomainStatus domainName True
                       (x\<lparr>headLog := headLog x @ [''https://'' @ domainName]\<rparr>))
          | HeadResp status \<Rightarrow>
              (False, cacheDomainStatus domainName False
                        (x\<lparr>headLog := headLog x @ [''https://'' @ domainName]\<rparr>))))"

definition isDeadLinkFast :: "env \<Rightarrow> string \<Rightarrow> ContentExtractor \<Rightarrow> bool \<times> ContentExtractor" where
  "isDeadLinkFast e urlStr x =
     (case map_of (deadLinkCache x) urlStr of
        Some cached \<Rightarrow> (cached, x)
      | None \<Rightarrow>
         (case head_Do e urlStr of
            HeadNewRequestErr \<Rightarrow> (False, cacheDeadLink urlStr False x)
          | HeadErr \<Rightarrow> (True, cacheDeadLink urlStr True (x\<lparr>headLog := headLog x @ [urlStr]\<rparr>))
          | HeadResp status \<Rightarrow>
              (let isDead = (status = 404 \<or> status = 410 \<or> status \<ge> 500)
               in (isDead, cacheDeadLink urlStr isDead (x\<lparr>headLog := headLog x @ [urlStr]\<rparr>)))))"

definition processLinkAsync :: "env \<Rightarrow> string \<times> string \<Rightarrow> world \<Rightarrow> world" where
  "processLinkAsync e req w =
     (let domainName = GetDomain (url_Parse e) (fst req)
      in if domainName = [] then w
         else let (isDomainDead, x1) = isDomainDead e domainName (Extractor w);
                  w1 = w\<lparr>Extractor := x1\<rparr>
              in if isDomainDead
                 then (let (t, w2) = now e w1;
                           result = (empty_result (snd req) t)
                                      \<lparr>DeadLinks := [fst req], DeadDomains := [domainName]\<rparr>
                       in w2\<lparr>Storage := StoreResult result (Storage w2),
                             Metrics := UpdateDeadDomainsFound 1
                                          (UpdateDeadLinksFound 1 (Metrics w2))\<rparr>)
                 else (let (isURLDead, x2) = isDeadLinkFast e (fst req) (Extractor w1);
                           w2 = w1\<lparr>Extractor := x2\<rparr>
                       in if isURLDead
                          then (let (t, w3) = now e w2;
                                    result = (empty_result (snd req) t)\<lparr>DeadLinks := [fst req]\<rparr>
                                in w3\<lparr>Storage := StoreResult result (Storage w3),
                                      Metrics := UpdateDeadLinksFound 1 (Metrics w3)\<rparr>)
                          else w2))"

section \<open>The crawler service (internal/application/crawler_service.go)\<close>

record CrawlerService =
  mode :: string
  keywords_list :: "string list"
  checkDeadDomains :: bool

definition UserAgent :: string where
  "UserAgent = ''GolamV2-Crawler/1.0''"

text \<open>
  \<open>fetchURL\<close> returns the content, the status code and the error, if any. A GET is on
  the wire once \<open>httpClient.Do\<close> is called: the state records its URL.
\<close>

definition is_html :: "string \<Rightarrow> bool" where
  "is_html contentType =
     (Contains (ToLower contentType) ''text/html''
      \<or> Contains (ToLower contentType) ''application/xhtml'')"

definition fetchURL ::
  "env \<Rightarrow> string \<Rightarrow> world \<Rightarrow> (string \<times> int \<times> string option) \<times> world" where
  "fetchURL e url w =
     (case http_Do e url of
        NewRequestErr err \<Rightarrow> (([], 0, Some err), w)
      | DoErr err \<Rightarrow> (([], 0, Some err), w\<lparr>getLog := getLog w @ [url]\<rparr>)
      | Resp status contentType body \<Rightarrow>
         (let w' = w\<lparr>getLog := getLog w @ [url]\<rparr>
          in if contentType \<noteq> [] \<and> \<not> Contains (ToLower contentType) ''text/html''
                \<and> \<not> Contains (ToLower contentType) ''application/xhtml''
             then (([], status, Some (''skipped non-HTML content: '' @ contentType)), w')
             else case body of
                    ReadErr err \<Rightarrow> (([], status, Some err), w')
                  | ReadOk content \<Rightarrow> ((take (2 * 1024 * 1024) content, status, None), w')))"

text \<open>
  \<open>addNewURLs\<close>: the loop over the extracted URLs. A task that the queue refuses is
  handed to \<open>StoreURL\<close>.
\<close>

fun addNewURLs :: "env \<Rightarrow> string list \<Rightarrow> int \<Rightarrow> world \<Rightarrow> string list \<times> world" where
  "addNewURLs e [] depth w = ([], w)"
| "addNewURLs e (url # urls) depth w =
     (if \<not> IsValidURL (url_Parse e) url then addNewURLs e urls depth w
      else if bloom_Test e (BloomFilter w) url then addNewURLs e urls depth w
      else let w1 = w\<lparr>BloomFilter := bloom_Add url (BloomFilter w)\<rparr>;
               (t, w2) = now e w1;
               task = \<lparr>URL = url, Depth = depth, Timestamp = t, Retries = 0\<rparr>;
               (q', err) = Push (URLQueue w2) task;
               w3 = (case err of
                       None \<Rightarrow> w2\<lparr>URLQueue := q'\<rparr>
                     | Some _ \<Rightarrow> w2\<lparr>Storage := StoreURL task (Storage w2)\<rparr>);
               (newURLs, w4) = addNewURLs e urls depth w3
           in (url # newURLs, w4))"

text \<open>The deferred function of \<open>processURL\<close>: store the result, count the URL.\<close>

definition finalize :: "CrawlResult \<Rightarrow> world \<Rightarrow> world" where
  "finalize result w =
     w\<lparr>Storage := StoreResult result (Storage w),
       Metrics := UpdateURLsProcessed 1 (Metrics w)\<rparr>"

definition shouldCheckDeadLinks :: "CrawlerService \<Rightarrow> bool" where
  "shouldCheckDeadLinks c = (checkDeadDomains c \<or> mode c = ''domains'')"

text \<open>The dead-link part of the modes \<open>domains\<close> and \<open>all\<close>.\<close>

definition check_links ::
  "env \<Rightarrow> string \<Rightarrow> URLTask \<Rightarrow> CrawlResult \<Rightarrow> world \<Rightarrow> CrawlResult \<times> world" where
  "check_links e content t result w =
     (let links = ExtractLinks e content (URL t);
          (deadLinks, deadDomains, x) = CheckDeadLinks e links (URL t) (Extractor w);
          result' = result\<lparr>DeadLinks := deadLinks, DeadDomains := deadDomains\<rparr>
      in (result',
          w\<lparr>Extractor := x,
            Metrics := UpdateDeadDomainsFound (int (length (DeadDomains result')))
                         (UpdateDeadLinksFound (int (length (DeadLinks result')))
                           (UpdateLinksChecked (int (length links)) (Metrics w)))\<rparr>))"

text \<open>The \<open>switch c.mode\<close> of \<open>processURL\<close> (lines 171-215).\<close>

definition extract_by_mode ::
  "env \<Rightarrow> CrawlerService \<Rightarrow> string \<Rightarrow> URLTask \<Rightarrow> CrawlResult \<Rightarrow> world
     \<Rightarrow> CrawlResult \<times> world" where
  "extract_by_mode e c content t result w =
     (if mode c = ''email''
      then (let r = result\<lparr>Emails := ExtractEmails e content\<rparr>
            in (r, w\<lparr>Metrics := UpdateEmailsFound (int (length (Emails r))) (Metrics w)\<rparr>))
      else if mode c = ''keywords''
      then (let r = result\<lparr>Keywords := ExtractKeywords e content (keywords_list c)\<rparr>
            in (r, w\<lparr>Metrics := UpdateKeywordsFound (keyword_total r) (Metrics w)\<rparr>))
      else if mode c = ''domains''
      then check_links e content t result w
      else if mode c = ''all''
      then (let r = result\<lparr>Emails := ExtractEmails e content,
                            Keywords := ExtractKeywords e content (keywords_list c)\<rparr>;
                (r', w') = (if shouldCheckDeadLinks c then check_links e content t r w
                            else (r\<lparr>DeadLinks := [], DeadDomains := []\<rparr>, w))
            in (r', w'\<lparr>Metrics := UpdateKeywordsFound (keyword_total r')
                                     (UpdateEmailsFound (int (length (Emails r')))
                                        (Metrics w'))\<rparr>))
      else (result, w))"

text \<open>
  \<open>processURL\<close>. \<open>task.Depth + 1\<close> is computed only when \<open>task.Depth < maxDepth\<close>, so
  it does not overflow.
\<close>

definition processURL :: "env \<Rightarrow> CrawlerService \<Rightarrow> URLTask \<Rightarrow> int \<Rightarrow> world \<Rightarrow> world" where
  "processURL e c t maxDepth w =
     (let (startTime, w0) = now e w;
          result = empty_result (URL t) startTime;
          (allowed, cache) = CanFetch e UserAgent (URL t) (RobotsCache w0);
          w1 = w0\<lparr>RobotsCache := cache\<rparr>
      in if \<not> allowed then finalize (result\<lparr>Error := ''blocked by robots.txt''\<rparr>) w1
         else if \<not> rate_Wait e (URL t)
         then finalize (result\<lparr>Error := ''rate limit context cancelled''\<rparr>) w1
         else let ((content, statusCode, err), w2) = fetchURL e (URL t) w1;
                  result1 = result\<lparr>StatusCode := statusCode\<rparr>
              in case err of
                   Some msg \<Rightarrow>
                     finalize (result1\<lparr>Error := msg\<rparr>)
                       (w2\<lparr>Metrics := UpdateErrors 1 (Metrics w2)\<rparr>)
                 | None \<Rightarrow>
                    (let result2 = result1\<lparr>Title := ExtractTitle e content\<rparr>;
                         (result3, w3) = extract_by_mode e c content t result2 w2
                     in if Depth t < maxDepth
                        then (let newURLs = ExtractLinks e content (URL t);
                                  (added, w4) = addNewURLs e newURLs (Depth t + 1) w3
                              in finalize (result3\<lparr>NewURLs := added\<rparr>) w4)
                        else finalize result3 w3))"

text \<open>The admission of the seed by \<open>StartCrawling\<close> (lines 65-78).\<close>

definition StartCrawling_seed :: "env \<Rightarrow> string \<Rightarrow> world \<Rightarrow> world \<times> QueueError option" where
  "StartCrawling_seed e startURL w =
     (let (t, w1) = now e w;
          startTask = \<lparr>URL = startURL, Depth = 0, Timestamp = t, Retries = 0\<rparr>;
          (q', err) = Push (URLQueue w1) startTask
      in case err of
           Some er \<Rightarrow> (w1, Some er)
         | None \<Rightarrow> (w1\<lparr>URLQueue := q', BloomFilter := bloom_Add startURL (BloomFilter w1)\<rparr>,
                     None))"

text \<open>
  \<open>refillFromDB\<close> (priority_queue.go lines 139-175), run to completion: the URLs fetched
  from the store are pushed until the queue refuses one.
\<close>

fun push_all :: "URLTask list \<Rightarrow> PriorityURLQueue \<Rightarrow> PriorityURLQueue" where
  "push_all [] q = q"
| "push_all (t # ts) q =
     (case Push q t of (q', None) \<Rightarrow> push_all ts q' | (q', Some _) \<Rightarrow> q')"

definition refillFromDB :: "world \<Rightarrow> world" where
  "refillFromDB w =
     (if refilling (URLQueue w) then w
      else let needed = maxSize (URLQueue w) - Size (URLQueue w)
           in if needed \<le> 0 then w
              else let (urls, err, s) = GetURLs needed (Storage w);
                       w1 = w\<lparr>Storage := s\<rparr>
                   in if err \<noteq> None then w1
                      else w1\<lparr>URLQueue := push_all urls (URLQueue w1)\<rparr>)"

section \<open>The URL-injection endpoint (internal/interfaces, Dashboard.handleAddURLs)\<close>

record add_response =
  added :: int
  total_valid :: int
  invalid_urls :: "string list"
  errors :: "string list"

text \<open>The validation loop: blank entries are skipped, the others are valid or invalid.\<close>

definition url_accepted :: "(string \<Rightarrow> net_URL option) \<Rightarrow> string \<Rightarrow> bool" where
  "url_accepted parse cleanURL =
     (case parse cleanURL of None \<Rightarrow> False | Some p \<Rightarrow> Scheme p \<noteq> [] \<and> Host p \<noteq> [])"

fun validate_urls ::
  "(string \<Rightarrow> net_URL option) \<Rightarrow> string list \<Rightarrow> string list \<times> string list" where
  "validate_urls parse [] = ([], [])"
| "validate_urls parse (rawURL # rest) =
     (let cleanURL = TrimSpace rawURL;
          (validURLs, invalidURLs) = validate_urls parse rest
      in if cleanURL = [] then (validURLs, invalidURLs)
         else if url_accepted parse cleanURL then (cleanURL # validURLs, invalidURLs)
         else (validURLs, cleanURL # invalidURLs))"

text \<open>The push loop: the count of tasks added, the error messages, the new state.\<close>

fun push_valid :: "env \<Rightarrow> string list \<Rightarrow> world \<Rightarrow> int \<times> string list \<times> world" where
  "push_valid e [] w = (0, [], w)"
| "push_valid e (validURL # rest) w =
     (let (t, w1) = now e w;
          task = \<lparr>URL = validURL, Depth = 0, Timestamp = t, Retries = 0\<rparr>;
          (q', err) = Push (URLQueue w1) task
      in case err of
           Some _ \<Rightarrow>
             (let (n, errs, w2) = push_valid e rest w1
              in (n, (''Failed to add '' @ validURL @ '': queue is full'') # errs, w2))
         | None \<Rightarrow>
             (let (n, errs, w2) = push_valid e rest (w1\<lparr>URLQueue := q'\<rparr>)
              in (n + 1, errs, w2)))"

text \<open>
  The request body is the decoded list of URLs, \<open>None\<close> when it is not valid JSON. A
  rejected request is answered with status 400 and a message. The response is given as the
  values that the handler hands to the JSON encoder.
\<close>

definition handleAddURLs ::
  "env \<Rightarrow> string list option \<Rightarrow> world \<Rightarrow> (string + add_response) \<times> world" where
  "handleAddURLs e request w =
     (case request of
        None \<Rightarrow> (Inl ''Invalid JSON request'', w)
      | Some urls \<Rightarrow>
         (if length urls = 0 then (Inl ''No URLs provided'', w)
          else let (validURLs, invalidURLs) = validate_urls (url_Parse e) urls;
                   (addedCount, errs, w') = push_valid e validURLs w
               in (Inr \<lparr>added = addedCount, total_valid = int (length validURLs),
                         invalid_urls = invalidURLs, errors = errs\<rparr>, w')))"

section \<open>Auxiliary notions for the statements about the worker\<close>

text \<open>One iteration of the loop of \<open>addNewURLs\<close> that creates a task.\<close>

definition add_one :: "env \<Rightarrow> string \<Rightarrow> int \<Rightarrow> world \<Rightarrow> world" where
  "add_one e url depth w =
     (let task = \<lparr>URL = url, Depth = depth, Timestamp = time_Now e (ticks w), Retries = 0\<rparr>;
          w2 = w\<lparr>BloomFilter := bloom_Add url (BloomFilter w), ticks := ticks w + 1\<rparr>
      in case snd (Push (URLQueue w) task) of
           None \<Rightarrow> w2\<lparr>URLQueue := fst (Push (URLQueue w) task)\<rparr>
         | Some _ \<Rightarrow> w2\<lparr>Storage := StoreURL task (Storage w)\<rparr>)"

definition item_of :: "URLTask \<Rightarrow> urlItem" where
  "item_of t = \<lparr>task = t, priority = task_priority t\<rparr>"

text \<open>The tasks that wait: in the heap of the queue, and in the backlog of the store.\<close>

fun stored_depth_ok :: "int \<Rightarrow> string \<times> stored_value \<Rightarrow> bool" where
  "stored_depth_ok maxDepth (k, TaskJSON t) = (0 \<le> Depth t \<and> Depth t \<le> maxDepth)"
| "stored_depth_ok maxDepth (k, Undecodable) = True"

definition depth_bounded :: "int \<Rightarrow> world \<Rightarrow> bool" where
  "depth_bounded maxDepth w =
     (list_all (\<lambda>it. 0 \<le> Depth (task it) \<and> Depth (task it) \<le> maxDepth) (heap (URLQueue w))
      \<and> list_all (stored_depth_ok maxDepth) (urlDB (Storage w)))"

text \<open>
  The steps that put tasks into the queue or the backlog: the admission of the seed, an
  injection through the endpoint, a worker popping a task and processing it, and a refill
  of the queue from the backlog.
\<close>

datatype engine_op = Seed string | Inject "string list option" | Work | Refill

fun engine_step :: "env \<Rightarrow> CrawlerService \<Rightarrow> int \<Rightarrow> engine_op \<Rightarrow> world \<Rightarrow> world" where
  "engine_step e c maxDepth (Seed u) w = fst (StartCrawling_seed e u w)"
| "engine_step e c maxDepth (Inject req) w = snd (handleAddURLs e req w)"
| "engine_step e c maxDepth Work w =
     (case Pop (URLQueue w) of
        (q, Inr t, refill) \<Rightarrow> processURL e c t maxDepth (w\<lparr>URLQueue := q\<rparr>)
      | (q, Inl err, refill) \<Rightarrow> w)"
| "engine_step e c maxDepth Refill w = refillFromDB w"

definition engine_run ::
  "env \<Rightarrow> CrawlerService \<Rightarrow> int \<Rightarrow> engine_op list \<Rightarrow> world \<Rightarrow> world" where
  "engine_run e c maxDepth ops w = fold (engine_step e c maxDepth) ops w"

section \<open>Sample inputs\<close>

definition task_a :: URLTask where
  "task_a = \<lparr>URL = ''http://a.io/1'', Depth = 2, Timestamp = 1700000000, Retries = 0\<rparr>"

definition task_b :: URLTask where
  "task_b = \<lparr>URL = ''http://a.io/2'', Depth = 0, Timestamp = 1700000005, Retries = 0\<rparr>"

definition task_c :: URLTask where
  "task_c = \<lparr>URL = ''http://a.io/3'', Depth = 1, Timestamp = 1700000001, Retries = 0\<rparr>"

definition sample_store :: BadgerStorage where
  "sample_store = StoreURL task_c (StoreURL task_a (StoreURL task_b new_storage))"

text \<open>
  An environment: a host with a robots.txt that disallows \<open>/private\<close>, a page and an
  image; a host without robots.txt (status 404); no other host reachable; a random source
  that always draws 0.
\<close>

definition sample_env :: env where
  "sample_env =
     \<lparr>url_Parse = go_url_Parse,
      bloom_collision = (\<lambda>ms u. False),
      robots_Get = (\<lambda>u. if u = ''https://a.io/robots.txt'' then GetResp 200 ''rules''
                         else if u = ''https://c.io/robots.txt'' then GetResp 404 []
                         else GetErr),
      robots_FromResponse = (\<lambda>status body.
         Some (RobotsData (\<lambda>agent. if agent = ''*''
                 then Some (Group (\<lambda>path. \<not> HasPrefix path ''/private'') 0) else None))),
      rate_Wait = (\<lambda>u. True),
      http_Do = (\<lambda>u. if u = ''http://a.io/logo.png'' then Resp 200 ''image/png'' (ReadOk ''PNG'')
                      else if u = ''http://a.io/'' then Resp 200 ''text/html'' (ReadOk ''<html>'')
                      else DoErr ''no such host''),
      head_Do = (\<lambda>u. HeadErr),
      time_Now = (\<lambda>n. 1700000000 + int n),
      rand_Intn = (\<lambda>n. 0),
      ExtractTitle = (\<lambda>content. ''Home''),
      ExtractEmails = (\<lambda>content. [''a@x.io'', ''b@y.io'']),
      ExtractKeywords = (\<lambda>content ks. [(''golang'', 3)]),
      ExtractLinks = (\<lambda>content base. [''http://a.io/1'', ''http://a.io/2''])\<rparr>"

definition new_extractor :: ContentExtractor where
  "new_extractor = \<lparr>linkQueue = [], deadLinkCache = [], deadDomainCache = [], headLog = []\<rparr>"

definition seven_links :: "string list" where
  "seven_links = [''http://a.io/1'', ''http://a.io/2'', ''http://a.io/3'', ''http://a.io/4'',
                  ''http://a.io/5'', ''http://a.io/6'', ''http://a.io/7'']"

definition sample_world :: world where
  "sample_world =
     \<lparr>URLQueue = NewPriorityURLQueue,
      BloomFilter = \<lparr>members = [], count_added = 0\<rparr>,
      Storage = new_storage,
      RobotsCache = Map.empty,
      Extractor = new_extractor,
      Metrics = zero_metrics,
      getLog = [],
      ticks = 0\<rparr>"

text \<open>A queue of capacity 1 that holds one task.\<close>

definition full_queue :: PriorityURLQueue where
  "full_queue =
     \<lparr>heap = [\<lparr>task = task_b, priority = task_priority task_b\<rparr>], maxSize = 1,
      refillThreshold = 0, refilling = False\<rparr>"

definition full_world :: world where
  "full_world = sample_world\<lparr>URLQueue := full_queue\<rparr>"

definition sample_service :: CrawlerService where
  "sample_service = \<lparr>mode = ''email'', keywords_list = [], checkDeadDomains = False\<rparr>"

definition page_task :: URLTask where
  "page_task = \<lparr>URL = ''http://a.io/'', Depth = 0, Timestamp = 1700000000, Retries = 0\<rparr>"


definition private_task :: URLTask where
  "private_task = \<lparr>URL = ''http://a.io/private/x'', Depth = 0, Timestamp = 1700000000,
     Retries = 0\<rparr>"


text \<open>
  A link as a page in Latin-1 has it: the byte \<open>0xE4\<close> in the query is not well-formed
  UTF-8. \<open>url.Parse\<close> leaves the query as it is, and \<open>IsValidURL\<close> accepts the URL.
\<close>

definition latin1_url :: string where
  "latin1_url = ''http://h.io/s?q=K'' @ [CHR 0xE4] @ ''se''"

definition latin1_task :: URLTask where
  "latin1_task = \<lparr>URL = latin1_url, Depth = 1, Timestamp = 1700000000, Retries = 0\<rparr>"

definition latin1_store :: BadgerStorage where
  "latin1_store = StoreURL latin1_task new_storage"
section \<open>The heap of \<open>container/heap\<close> keeps its order\<close>

lemma parent_less: "0 < k \<Longrightarrow> parent k < k"
  by (simp add: parent_def) 

lemma length_Swap [simp]: "length (Swap h i j) = length h"
  by (simp add: Swap_def)

lemma mset_Swap: "i < length h \<Longrightarrow> j < length h \<Longrightarrow> mset (Swap h i j) = mset h"
  by (simp add: Swap_def mset_swap)

lemma nth_Swap:
  "i < length h \<Longrightarrow> j < length h \<Longrightarrow> k < length h \<Longrightarrow>
   Swap h i j ! k = (if k = j then h ! i else if k = i then h ! j else h ! k)"
  by (auto simp: Swap_def nth_list_update)

lemma root_min:
  "heap_upto h n \<Longrightarrow> j < n \<Longrightarrow> priority (h ! 0) \<le> priority (h ! j)"
proof (induction j rule: less_induct)
  case (less j)
  show ?case
  proof (cases "j = 0")
    case True then show ?thesis by simp
  next
    case False
    then have pj: "parent j < j" by (simp add: parent_less)
    have "priority (h ! parent j) \<le> priority (h ! j)"
      using less.prems False by (simp add: heap_upto_def)
    moreover have "priority (h ! 0) \<le> priority (h ! parent j)"
      using less.IH [OF pj less.prems(1)] pj less.prems(2) by simp
    ultimately show ?thesis by simp
  qed
qed

lemma up_inv_step:
  assumes inv: "up_inv h j" and ne: "parent j \<noteq> j" and lt: "Less h j (parent j)"
  shows "up_inv (Swap h (parent j) j) (parent j)"
proof -
  let ?p = "parent j"
  let ?h = "Swap h ?p j"
  have j: "j < length h" using inv by (simp add: up_inv_def)
  have j0: "0 < j" using ne by (cases j) (simp_all add: parent_def)
  have pj: "?p < j" using j0 by (rule parent_less)
  have p: "?p < length h" using pj j by simp
  have A: "priority (h ! parent k) \<le> priority (h ! k)"
    if "0 < k" "k < length h" "k \<noteq> j" for k
    using inv that by (simp add: up_inv_def)
  have B: "priority (h ! ?p) \<le> priority (h ! k)"
    if "0 < k" "k < length h" "parent k = j" for k
    using inv that j0 by (simp add: up_inv_def)
  have lt': "priority (h ! j) < priority (h ! ?p)"
    using lt by (simp add: Less_def)
  have nth: "?h ! k = (if k = j then h ! ?p else if k = ?p then h ! j else h ! k)"
    if "k < length h" for k
    using nth_Swap [OF p j that] .
  have C: "priority (?h ! parent k) \<le> priority (?h ! k)"
    if k: "0 < k" "k < length h" "k \<noteq> ?p" for k
  proof -
    have pk: "parent k < k" using k(1) by (rule parent_less)
    then have pkl: "parent k < length h" using k(2) by simp
    show ?thesis
    proof (cases "k = j")
      case True
      then show ?thesis using lt' pj by (simp add: nth p j)
    next
      case False
      note kj = this
      show ?thesis
      proof (cases "parent k = j")
        case True
        then show ?thesis using B [OF k(1,2) True] kj k(3) pj by (simp add: nth k(2) j)
      next
        case False
        then show ?thesis
          using A [OF k(1,2) kj] kj k(3) lt' by (auto simp add: nth k(2) pkl)
      qed
    qed
  qed
  have D: "priority (?h ! parent ?p) \<le> priority (?h ! k)"
    if k: "0 < k" "k < length h" "parent k = ?p" "0 < ?p" for k
  proof -
    have ppp: "parent ?p < ?p" using k(4) by (rule parent_less)
    have kp: "k \<noteq> ?p" using parent_less [OF k(1)] k(3) by simp
    have e1: "priority (h ! parent ?p) \<le> priority (h ! ?p)"
      using A [OF k(4) p] pj by simp
    have e2: "?h ! parent ?p = h ! parent ?p"
      using ppp pj p by (simp add: nth)
    show ?thesis
    proof (cases "k = j")
      case True
      then show ?thesis using e1 e2 by (simp add: nth j)
    next
      case False
      then show ?thesis using A [OF k(1,2) False] k(3) e1 e2 kp by (simp add: nth k(2))
    qed
  qed
  show ?thesis
    unfolding up_inv_def using p C D by simp
qed

lemma up_heap_ok: "up_inv h j \<Longrightarrow> heap_ok (up h j)"
proof (induction h j rule: up.induct)
  case (1 h j)
  show ?case
  proof (cases "parent j = j \<or> \<not> Less h j (parent j)")
    case True
    then have "up h j = h" by (subst up.simps) (auto simp: parent_def Let_def)
    moreover have "heap_ok h"
      using "1.prems" True
      by (auto simp: heap_ok_def heap_upto_def up_inv_def Less_def) 
    ultimately show ?thesis by simp
  next
    case False
    then have "up h j = up (Swap h (parent j) j) (parent j)"
      by (subst up.simps) (auto simp: parent_def Let_def)
    moreover have "heap_ok (up (Swap h (parent j) j) (parent j))"
      using "1.IH" [of "parent j"] False up_inv_step [OF "1.prems"]
      by (auto simp: parent_def)
    ultimately show ?thesis by simp
  qed
qed

lemma length_up [simp]: "length (up h j) = length h"
proof (induction h j rule: up.induct)
  case (1 h j)
  show ?case
    by (subst up.simps) (use 1 in \<open>auto simp: Let_def\<close>)
qed

lemma mset_up: "j < length h \<Longrightarrow> mset (up h j) = mset h"
proof (induction h j rule: up.induct)
  case (1 h j)
  have "(j - 1) div 2 < length h" using "1.prems" by simp
  then show ?case
    by (subst up.simps) (use 1 in \<open>auto simp: Let_def mset_Swap\<close>)
qed


lemma parent_children: "0 < k \<Longrightarrow> parent k = i \<longleftrightarrow> k = 2 * i + 1 \<or> k = 2 * i + 2"
  by (auto simp: parent_def)

lemma down_unfold:
  "down h i n =
     (if 2 * i + 1 \<ge> n then h
      else if \<not> Less h (child h i n) i then h else down (Swap h i (child h i n)) (child h i n) n)"
  by (subst down.simps) (simp add: Let_def child_def)

lemma child_props:
  assumes "2 * i + 1 < n"
  shows "child h i n < n" "i < child h i n" "parent (child h i n) = i" "0 < child h i n"
    "\<And>k. 0 < k \<Longrightarrow> k < n \<Longrightarrow> parent k = i \<Longrightarrow>
       priority (h ! child h i n) \<le> priority (h ! k)"
proof -
  show "child h i n < n" "i < child h i n" "parent (child h i n) = i" "0 < child h i n"
    using assms by (auto simp: child_def parent_def)
  fix k assume k: "0 < k" "k < n" "parent k = i"
  then have "k = 2 * i + 1 \<or> k = 2 * i + 2" by (simp add: parent_children)
  then show "priority (h ! child h i n) \<le> priority (h ! k)"
    using k(2) by (auto simp: child_def Less_def)
qed

lemma down_inv_stop1:
  assumes "down_inv h i n" "2 * i + 1 \<ge> n"
  shows "heap_upto h n"
  unfolding heap_upto_def
proof (intro allI impI)
  fix k assume k: "0 < k \<and> k < n"
  then have "parent k \<noteq> i" using assms(2) by (auto simp: parent_children)
  then show "priority (h ! parent k) \<le> priority (h ! k)"
    using assms(1) k by (simp add: down_inv_def)
qed

lemma down_inv_stop2:
  assumes inv: "down_inv h i n" and c: "2 * i + 1 < n" and nl: "\<not> Less h (child h i n) i"
  shows "heap_upto h n"
  unfolding heap_upto_def
proof (intro allI impI)
  fix k assume k: "0 < k \<and> k < n"
  show "priority (h ! parent k) \<le> priority (h ! k)"
  proof (cases "parent k = i")
    case True
    have "priority (h ! i) \<le> priority (h ! child h i n)"
      using nl by (simp add: Less_def)
    also have "\<dots> \<le> priority (h ! k)"
      using child_props(5) [OF c _ _ True] k by simp
    finally show ?thesis using True by simp
  next
    case False
    then show ?thesis using inv k by (simp add: down_inv_def)
  qed
qed

lemma down_inv_step:
  assumes inv: "down_inv h i n" and c: "2 * i + 1 < n" and lt: "Less h (child h i n) i"
  shows "down_inv (Swap h i (child h i n)) (child h i n) n"
proof -
  let ?j = "child h i n"
  let ?h = "Swap h i ?j"
  have nl: "n \<le> length h" using inv by (simp add: down_inv_def)
  have jn: "?j < n" and ij: "i < ?j" and pj: "parent ?j = i" and j0: "0 < ?j"
    using child_props(1-4) [OF c] by simp_all
  have j: "?j < length h" and i: "i < length h" using jn ij nl by simp_all
  have A: "priority (h ! parent k) \<le> priority (h ! k)"
    if "0 < k" "k < n" "parent k \<noteq> i" for k
    using inv that by (simp add: down_inv_def)
  have B: "priority (h ! parent i) \<le> priority (h ! k)"
    if "0 < k" "k < n" "parent k = i" "0 < i" for k
    using inv that by (simp add: down_inv_def)
  have m: "priority (h ! ?j) \<le> priority (h ! k)"
    if "0 < k" "k < n" "parent k = i" for k
    using child_props(5) [OF c that] .
  have lt': "priority (h ! ?j) < priority (h ! i)"
    using lt by (simp add: Less_def)
  have nth: "?h ! k = (if k = ?j then h ! i else if k = i then h ! ?j else h ! k)"
    if "k < length h" for k
    using nth_Swap [OF i j that] .
  have C: "priority (?h ! parent k) \<le> priority (?h ! k)"
    if k: "0 < k" "k < n" "parent k \<noteq> ?j" for k
  proof -
    have pk: "parent k < k" using k(1) by (rule parent_less)
    have kl: "k < length h" and pkl: "parent k < length h" using pk k(2) nl by simp_all
    show ?thesis
    proof (cases "parent k = i")
      case True
      show ?thesis
      proof (cases "k = ?j")
        case True
        then show ?thesis using lt' pj ij by (simp add: nth i j)
      next
        case False
        have "k \<noteq> i" using pk True by simp
        then show ?thesis using m [OF k(1,2) True] True False ij by (simp add: nth kl i)
      qed
    next
      case False
      note npi = this
      have kj: "k \<noteq> ?j" using pj npi by auto
      show ?thesis
      proof (cases "k = i")
        case True
        then have i0: "0 < i" using k(1) by simp
        have ppi: "parent i < i" using i0 by (rule parent_less)
        have e1: "?h ! parent i = h ! parent i" using ppi ij i by (simp add: nth)
        have e2: "?h ! i = h ! ?j" using ij i by (simp add: nth)
        from B [OF j0 jn pj i0] show ?thesis
          using True e1 e2 by simp
      next
        case False
        then show ?thesis using A [OF k(1,2) npi] npi k(3) kj by (simp add: nth kl pkl)
      qed
    qed
  qed
  have D: "priority (?h ! parent ?j) \<le> priority (?h ! k)"
    if k: "0 < k" "k < n" "parent k = ?j" for k
  proof -
    have pk: "parent k < k" using k(1) by (rule parent_less)
    have kl: "k < length h" using k(2) nl by simp
    have ne: "k \<noteq> ?j" "k \<noteq> i" "parent k \<noteq> i" using pk k(3) ij by simp_all
    from A [OF k(1,2) ne(3)] show ?thesis
      using ne k(3) pj ij by (simp add: nth kl i)
  qed
  show ?thesis
    unfolding down_inv_def using nl C D by simp
qed

lemma down_heap_upto: "down_inv h i n \<Longrightarrow> heap_upto (down h i n) n"
proof (induction "n - i" arbitrary: h i rule: less_induct)
  case less
  consider (a) "2 * i + 1 \<ge> n" | (b) "2 * i + 1 < n" "\<not> Less h (child h i n) i"
    | (c) "2 * i + 1 < n" "Less h (child h i n) i" by linarith
  then show ?case
  proof cases
    case a
    then show ?thesis using down_inv_stop1 [OF less.prems] by (subst down_unfold) simp
  next
    case b
    then show ?thesis using down_inv_stop2 [OF less.prems] by (subst down_unfold) simp
  next
    case c
    have "n - child h i n < n - i"
      using child_props(1,2) [OF c(1), of h] by linarith
    then have "heap_upto (down (Swap h i (child h i n)) (child h i n) n) n"
      using less.hyps down_inv_step [OF less.prems c] by blast
    then show ?thesis using c by (subst down_unfold) simp
  qed
qed

lemma length_down [simp]: "length (down h i n) = length h"
proof (induction h i n rule: down.induct)
  case (1 h i n)
  show ?case
    by (subst down.simps) (use 1 in \<open>auto simp: Let_def\<close>)
qed

lemma mset_down: "n \<le> length h \<Longrightarrow> mset (down h i n) = mset h"
proof (induction h i n rule: down.induct)
  case (1 h i n)
  show ?case
    by (subst down.simps) (use 1 in \<open>auto simp: Let_def mset_Swap\<close>)
qed

lemma nth_down_outside: "n \<le> m \<Longrightarrow> i < n \<Longrightarrow> m < length h \<Longrightarrow> down h i n ! m = h ! m"
proof (induction h i n rule: down.induct)
  case (1 h i n)
  show ?case
    by (subst down.simps) (use 1 in \<open>auto simp: Let_def nth_Swap Swap_def\<close>)
qed


lemma heap_ok_Nil [simp]: "heap_ok []"
  by (simp add: heap_ok_def heap_upto_def)

lemma heap_Push_ok: "heap_ok h \<Longrightarrow> heap_ok (heap_Push h x)"
proof -
  assume ok: "heap_ok h"
  have "up_inv (h @ [x]) (length h)"
    unfolding up_inv_def
  proof (intro conjI allI impI)
    show "length h < length (h @ [x])" by simp
  next
    fix k assume k: "0 < k \<and> k < length (h @ [x]) \<and> k \<noteq> length h"
    then have kl: "k < length h" by simp
    then have "parent k < length h" using parent_less [of k] k by simp
    then show "priority ((h @ [x]) ! parent k) \<le> priority ((h @ [x]) ! k)"
      using ok k kl by (simp add: heap_ok_def heap_upto_def nth_append)
  next
    fix k assume k: "0 < k \<and> k < length (h @ [x]) \<and> parent k = length h \<and> 0 < length h"
    then have False using parent_less [of k] by simp
    then show "priority ((h @ [x]) ! parent (length h)) \<le> priority ((h @ [x]) ! k)" ..
  qed
  then show ?thesis by (simp add: heap_Push_def up_heap_ok)
qed

lemma mset_heap_Push: "mset (heap_Push h x) = mset h + {#x#}"
  by (simp add: heap_Push_def mset_up)

lemma length_heap_Push [simp]: "length (heap_Push h x) = Suc (length h)"
  by (simp add: heap_Push_def)

lemma heap_upto_take:
  assumes "heap_upto h n" "n \<le> length h"
  shows "heap_ok (take n h)"
  unfolding heap_ok_def heap_upto_def
proof (intro allI impI)
  fix k assume k: "0 < k \<and> k < length (take n h)"
  then have kn: "k < n" by simp
  moreover have "parent k < n" using parent_less [of k] k kn by simp
  moreover have "priority (h ! parent k) \<le> priority (h ! k)"
    using assms(1) k kn by (simp add: heap_upto_def)
  ultimately show "priority (take n h ! parent k) \<le> priority (take n h ! k)" by simp
qed

lemma heap_Pop_props:
  assumes ne: "h \<noteq> []" and ok: "heap_ok h"
  shows "snd (heap_Pop h) = h ! 0"
    and "heap_ok (fst (heap_Pop h))"
    and "mset (fst (heap_Pop h)) + {#snd (heap_Pop h)#} = mset h"
    and "length (fst (heap_Pop h)) = length h - 1"
proof -
  define n where "n = length h - 1"
  define s where "s = Swap h 0 n"
  define d where "d = down s 0 n"
  have n: "n < length h" and ln: "length h = Suc n" using ne by (cases h; simp add: n_def)+
  have z: "0 < length h" using ne by simp
  have pop: "heap_Pop h = (butlast d, last d)"
    by (simp add: heap_Pop_def Let_def d_def s_def n_def)
  have ld: "length d = Suc n" by (simp add: d_def s_def ln)
  then have dne: "d \<noteq> []" by auto
  have inv: "down_inv s 0 n"
    unfolding down_inv_def
  proof (intro conjI allI impI)
    show "n \<le> length s" by (simp add: s_def ln)
  next
    fix k assume k: "0 < k \<and> k < n \<and> parent k \<noteq> 0"
    then have pk: "parent k < k" by (simp add: parent_less)
    have kl: "k < length h" using k n by linarith
    then have "priority (h ! parent k) \<le> priority (h ! k)"
      using ok k by (simp add: heap_ok_def heap_upto_def)
    moreover have "s ! k = h ! k"
      using k kl by (simp add: s_def nth_Swap [OF z n])
    moreover have "s ! parent k = h ! parent k"
      using k kl pk by (simp add: s_def nth_Swap [OF z n])
    ultimately show "priority (s ! parent k) \<le> priority (s ! k)" by simp
  next
    fix k assume "0 < k \<and> k < n \<and> parent k = 0 \<and> (0::nat) < 0"
    then show "priority (s ! parent 0) \<le> priority (s ! k)" by simp
  qed
  have last_d: "last d = h ! 0"
  proof (cases "n = 0")
    case True
    then have "d = s" unfolding d_def by (subst down.simps) simp
    moreover have "s = h" using True by (simp add: s_def Swap_def)
    moreover have "last h = h ! 0" using True ne ln by (simp add: last_conv_nth)
    ultimately show ?thesis by simp
  next
    case False
    have "last d = d ! n" using dne ld by (simp add: last_conv_nth)
    also have "\<dots> = s ! n" unfolding d_def using False by (intro nth_down_outside) (simp_all add: s_def ln)
    also have "\<dots> = h ! 0" using n z by (simp add: s_def nth_Swap)
    finally show ?thesis .
  qed
  show "snd (heap_Pop h) = h ! 0" using pop last_d by simp
  have "heap_upto d n" unfolding d_def using inv by (rule down_heap_upto)
  then have "heap_ok (take n d)" by (rule heap_upto_take) (simp add: ld)
  then show "heap_ok (fst (heap_Pop h))" using pop ld by (simp add: butlast_conv_take)
  have "mset d = mset h" using n z by (simp add: d_def s_def mset_down mset_Swap)
  moreover have "d = butlast d @ [last d]" using dne by simp
  then have "mset d = mset (butlast d) + {#last d#}" by (metis mset_append mset.simps add_mset_add_single union_mset_add_mset_right add.right_neutral)
  ultimately show "mset (fst (heap_Pop h)) + {#snd (heap_Pop h)#} = mset h"
    using pop by simp
  show "length (fst (heap_Pop h)) = length h - 1" using pop ld ln by simp
qed

lemma heap_ok_root_min:
  assumes "heap_ok h" "y \<in> set h"
  shows "priority (h ! 0) \<le> priority y"
proof -
  obtain j where "j < length h" "h ! j = y" using assms(2) by (auto simp: in_set_conv_nth)
  then show ?thesis using root_min [of h "length h" j] assms(1) by (auto simp: heap_ok_def)
qed


section \<open>The queue invariant\<close>

lemma queue_inv_New: "queue_inv NewPriorityURLQueue"
  by (simp add: queue_inv_def NewPriorityURLQueue_def MaxQueueSize_def)

lemma list_all_mset_cong:
  "mset xs = mset ys \<Longrightarrow> list_all P xs = list_all P ys"
  by (metis list_all_iff mset_eq_setD)

lemma Push_full: "maxSize q \<le> int (length (heap q)) \<Longrightarrow> Push q t = (q, Some ErrQueueFull)"
  by (simp add: Push_def)

lemma Push_room:
  "int (length (heap q)) < maxSize q \<Longrightarrow>
   Push q t = (q\<lparr>heap := heap_Push (heap q) \<lparr>task = t, priority = task_priority t\<rparr>\<rparr>, None)"
  by (simp add: Push_def)

lemma queue_inv_Push: "queue_inv q \<Longrightarrow> queue_inv (fst (Push q t))"
proof (cases "maxSize q \<le> int (length (heap q))")
  case True
  assume "queue_inv q"
  then show ?thesis using True by (simp add: Push_full)
next
  case False
  assume inv: "queue_inv q"
  let ?x = "\<lparr>task = t, priority = task_priority t\<rparr>"
  have "list_all (\<lambda>it. priority it = task_priority (task it)) (heap q @ [?x])"
    using inv by (simp add: queue_inv_def)
  moreover have "mset (heap_Push (heap q) ?x) = mset (heap q @ [?x])"
    by (simp add: mset_heap_Push)
  ultimately have "list_all (\<lambda>it. priority it = task_priority (task it)) (heap_Push (heap q) ?x)"
    using list_all_mset_cong by blast
  then show ?thesis
    using inv False by (simp add: Push_room queue_inv_def heap_Push_ok)
qed

lemma Pop_empty: "heap q = [] \<Longrightarrow> Pop q = (q, Inl ErrQueueEmpty, False)"
  by (simp add: Pop_def)

lemma Pop_nonempty:
  "heap q \<noteq> [] \<Longrightarrow>
   Pop q = (q\<lparr>heap := fst (heap_Pop (heap q))\<rparr>, Inr (task (snd (heap_Pop (heap q)))),
            int (length (fst (heap_Pop (heap q)))) < refillThreshold q \<and> \<not> refilling q)"
  by (simp add: Pop_def split_beta)

lemma queue_inv_Pop: "queue_inv q \<Longrightarrow> queue_inv (fst (Pop q))"
proof (cases "heap q = []")
  case True
  assume "queue_inv q"
  then show ?thesis using True by (simp add: Pop_empty)
next
  case False
  assume inv: "queue_inv q"
  then have ok: "heap_ok (heap q)" by (simp add: queue_inv_def)
  note p = heap_Pop_props [OF False ok]
  have "set (fst (heap_Pop (heap q))) \<subseteq> set (heap q)"
    using p(3) by (metis mset_subset_eq_add_left set_mset_mono set_mset_mset)
  then have "list_all (\<lambda>it. priority it = task_priority (task it)) (fst (heap_Pop (heap q)))"
    using inv by (auto simp: queue_inv_def list_all_iff)
  moreover have "int (length (fst (heap_Pop (heap q)))) \<le> maxSize q"
    using inv p(4) by (simp add: queue_inv_def) linarith
  ultimately show ?thesis
    using False p(2) by (simp add: Pop_nonempty queue_inv_def)
qed

lemma queue_inv_step: "queue_inv q \<Longrightarrow> queue_inv (queue_step op q)"
  by (cases op) (simp_all add: queue_inv_Push queue_inv_Pop, simp_all add: queue_inv_def Close_def)

lemma queue_inv_run: "queue_inv q \<Longrightarrow> queue_inv (queue_run ops q)"
  unfolding queue_run_def by (induction ops arbitrary: q) (simp_all add: queue_inv_step)

lemma wrap64_id: "- (2 ^ 63) \<le> x \<Longrightarrow> x < 2 ^ 63 \<Longrightarrow> wrap64 x = x"
  by (simp add: wrap64_def)

lemma task_priority_exact:
  "in_int64 (Depth t * 1000) \<Longrightarrow> in_int64 (Depth t * 1000 + Timestamp t) \<Longrightarrow>
   task_priority t = Depth t * 1000 + Timestamp t"
  by (simp add: task_priority_def in_int64_def wrap64_id)

lemma Pop_min:
  assumes inv: "queue_inv q" and ne: "heap q \<noteq> []"
  shows "\<exists>it \<in> set (heap q).
           fst (snd (Pop q)) = Inr (task it)
         \<and> (\<forall>it' \<in> set (heap q). task_priority (task it) \<le> task_priority (task it'))
         \<and> mset (heap (fst (Pop q))) + {#it#} = mset (heap q)"
proof -
  have ok: "heap_ok (heap q)" using inv by (simp add: queue_inv_def)
  have pr: "\<And>it. it \<in> set (heap q) \<Longrightarrow> priority it = task_priority (task it)"
    using inv by (simp add: queue_inv_def list_all_iff)
  note p = heap_Pop_props [OF ne ok]
  let ?it = "heap q ! 0"
  have mem: "?it \<in> set (heap q)" using ne by simp
  have "\<forall>it' \<in> set (heap q). task_priority (task ?it) \<le> task_priority (task it')"
    using heap_ok_root_min [OF ok] pr mem by metis
  then show ?thesis
    using mem p(1,3) ne by (intro bexI [of _ ?it]) (simp_all add: Pop_nonempty)
qed

lemma Push_cases:
  obtains (full) "Push q t = (q, Some ErrQueueFull)" "maxSize q \<le> int (length (heap q))"
  | (room) q' where "Push q t = (q', None)"
      "mset (heap q') = mset (heap q) + {#\<lparr>task = t, priority = task_priority t\<rparr>#}"
      "maxSize q' = maxSize q" "refillThreshold q' = refillThreshold q"
      "refilling q' = refilling q" "int (length (heap q)) < maxSize q"
proof (cases "maxSize q \<le> int (length (heap q))")
  case True
  then show ?thesis using full by (simp add: Push_full)
next
  case False
  then show ?thesis
    using room [of "q\<lparr>heap := heap_Push (heap q) \<lparr>task = t, priority = task_priority t\<rparr>\<rparr>"]
    by (simp add: Push_room mset_heap_Push)
qed

lemma mset_add_set: "mset ys = mset xs + {#x#} \<Longrightarrow> set ys = insert x (set xs)"
  by (metis set_mset_add_mset_insert set_mset_mset union_mset_add_mset_right add.right_neutral)

lemma mset_add_length: "mset ys = mset xs + {#x#} \<Longrightarrow> length ys = Suc (length xs)"
  by (metis add.right_neutral size_add_mset size_mset union_mset_add_mset_right)


section \<open>The backlog of the store\<close>

lemma HasPrefix_not_less: "HasPrefix k p \<Longrightarrow> \<not> k < p"
proof (induction p arbitrary: k)
  case Nil
  then show ?case by simp
next
  case (Cons a p)
  then show ?case by (cases k) (auto simp: HasPrefix_def)
qed

lemma no_prefix_above:
  "p \<le> k2 \<Longrightarrow> \<not> HasPrefix k2 p \<Longrightarrow> k2 \<le> k3 \<Longrightarrow> \<not> HasPrefix k3 (p::string)"
proof (induction p arbitrary: k2 k3)
  case Nil
  then show ?case by (simp add: HasPrefix_def)
next
  case (Cons a p)
  then show ?case
    by (cases k2; cases k3) (auto simp: HasPrefix_def split: if_splits)
qed

lemma filter_prefix_above:
  "sorted (map fst kvs) \<Longrightarrow> \<forall>kv \<in> set kvs. p \<le> fst kv \<Longrightarrow>
   filter (\<lambda>kv. HasPrefix (fst kv) p) kvs = takeWhile (\<lambda>kv. HasPrefix (fst kv) p) kvs"
proof (induction kvs)
  case Nil
  then show ?case by simp
next
  case (Cons kv kvs)
  show ?case
  proof (cases "HasPrefix (fst kv) p")
    case True
    then show ?thesis using Cons by simp
  next
    case False
    have "\<not> HasPrefix (fst x) p" if "x \<in> set kvs" for x
      using no_prefix_above [of p "fst kv" "fst x"] Cons.prems False that by auto
    then have "filter (\<lambda>kv. HasPrefix (fst kv) p) kvs = []"
      by (simp add: filter_empty_conv)
    then show ?thesis using False by simp
  qed
qed

lemma backlog_as_scan:
  assumes "sorted (map fst kvs)"
  shows "backlog kvs = takeWhile (\<lambda>kv. HasPrefix (fst kv) URLPrefix) (Seek URLPrefix kvs)"
  using assms
proof (induction kvs)
  case Nil
  then show ?case by (simp add: backlog_def Seek_def)
next
  case (Cons kv kvs)
  show ?case
  proof (cases "fst kv < URLPrefix")
    case True
    then have "\<not> HasPrefix (fst kv) URLPrefix" using HasPrefix_not_less by blast
    then show ?thesis using True Cons by (simp add: backlog_def Seek_def)
  next
    case False
    then have "\<forall>x \<in> set (kv # kvs). URLPrefix \<le> fst x"
      using Cons.prems by auto
    then have "filter (\<lambda>kv. HasPrefix (fst kv) URLPrefix) (kv # kvs)
             = takeWhile (\<lambda>kv. HasPrefix (fst kv) URLPrefix) (kv # kvs)"
      using Cons.prems by (intro filter_prefix_above) simp_all
    then show ?thesis using False by (simp add: backlog_def Seek_def)
  qed
qed

lemma scan_urls_wf:
  assumes "list_all entry_wf (takeWhile (\<lambda>kv. HasPrefix (fst kv) p) kvs)"
  shows "scan_urls p limit cnt kvs acc =
           (acc @ map entry_task (take (nat (limit - cnt))
                    (takeWhile (\<lambda>kv. HasPrefix (fst kv) p) kvs)), None)"
  using assms
proof (induction kvs arbitrary: cnt acc)
  case Nil
  then show ?case by simp
next
  case (Cons kv kvs)
  obtain k v where kv: "kv = (k, v)" by (cases kv)
  show ?case
  proof (cases "HasPrefix k p")
    case False
    then show ?thesis by (simp add: kv)
  next
    case True
    then obtain t where v: "v = TaskJSON t"
      using Cons.prems kv by (cases v) simp_all
    have wf: "list_all entry_wf (takeWhile (\<lambda>kv. HasPrefix (fst kv) p) kvs)"
      using Cons.prems True kv by simp
    show ?thesis
    proof (cases "cnt < limit")
      case False
      then show ?thesis using True by (simp add: kv)
    next
      case lt: True
      then have "nat (limit - cnt) = Suc (nat (limit - (cnt + 1)))" by simp
      then show ?thesis
        using True lt Cons.IH [OF wf, of "cnt + 1" "acc @ [t]"] by (simp add: kv v)
    qed
  qed
qed

lemma deleteURLsBatch_filter:
  "deleteURLsBatch tasks kvs =
     filter (\<lambda>kv. fst kv \<notin> (\<lambda>t. URLPrefix @ URL t) ` set tasks) kvs"
  unfolding deleteURLsBatch_def
  by (induction tasks arbitrary: kvs) (auto simp: db_delete_def intro: filter_cong)

lemma entry_wf_key: "entry_wf kv \<Longrightarrow> URLPrefix @ URL (entry_task kv) = fst kv"
  by (cases kv rule: entry_wf.cases) simp_all

lemma wf_task_keys:
  "list_all entry_wf xs \<Longrightarrow> (\<lambda>t. URLPrefix @ URL t) ` set (map entry_task xs) = fst ` set xs"
  by (induction xs) (simp_all add: entry_wf_key)

lemma wf_keys_map:
  "list_all entry_wf xs \<Longrightarrow> map (\<lambda>t. URLPrefix @ URL t) (map entry_task xs) = map fst xs"
  by (induction xs) (simp_all add: entry_wf_key)

lemma filter_not_in_take:
  "distinct (map fst xs) \<Longrightarrow> filter (\<lambda>x. fst x \<notin> fst ` set (take n xs)) xs = drop n xs"
proof (induction xs arbitrary: n)
  case Nil
  then show ?case by simp
next
  case (Cons x xs)
  show ?case
  proof (cases n)
    case 0
    then show ?thesis by simp
  next
    case (Suc m)
    have "fst y \<noteq> fst x" if "y \<in> set xs" for y
      using Cons.prems that by (metis distinct.simps(2) image_eqI list.simps(9) set_map)
    then have "filter (\<lambda>y. fst y \<notin> fst ` set (take n (x # xs))) xs
        = filter (\<lambda>y. fst y \<notin> fst ` set (take m xs)) xs"
      using Suc by (intro filter_cong) auto
    then show ?thesis using Cons Suc by simp
  qed
qed

lemma db_inv_filter: "db_inv kvs \<Longrightarrow> db_inv (filter P kvs)"
  by (simp add: db_inv_def sorted_filter distinct_map_filter)

lemma backlog_filter: "backlog (filter P kvs) = filter P (backlog kvs)"
  by (simp add: backlog_def) (metis (mono_tags, lifting) filter_cong)

lemma distinct_backlog: "db_inv kvs \<Longrightarrow> distinct (map fst (backlog kvs))"
  by (simp add: db_inv_def backlog_def distinct_map_filter)

text \<open>What \<open>GetURLs\<close> does on a store whose backlog entries were written by \<open>StoreURL\<close>.\<close>

lemma GetURLs_wf:
  assumes inv: "db_inv (urlDB s)" and wf: "backlog_wf (urlDB s)"
  shows "GetURLs limit s =
     (map entry_task (take (nat limit) (backlog (urlDB s))), None,
      if take (nat limit) (backlog (urlDB s)) = [] then s
      else s\<lparr>urlDB := deleteURLsBatch (map entry_task (take (nat limit) (backlog (urlDB s))))
                        (urlDB s)\<rparr>)"
proof -
  have b: "backlog (urlDB s)
         = takeWhile (\<lambda>kv. HasPrefix (fst kv) URLPrefix) (Seek URLPrefix (urlDB s))"
    using inv by (simp add: db_inv_def backlog_as_scan)
  have "scan_urls URLPrefix limit 0 (Seek URLPrefix (urlDB s)) []
      = (map entry_task (take (nat limit) (backlog (urlDB s))), None)"
    using scan_urls_wf [of URLPrefix "Seek URLPrefix (urlDB s)" limit 0 "[]"] wf b
    by (simp add: backlog_wf_def)
  then show ?thesis by (simp add: GetURLs_def)
qed

lemma deleted_backlog:
  assumes inv: "db_inv kvs" and wf: "backlog_wf kvs"
  shows "backlog (deleteURLsBatch (map entry_task (take n (backlog kvs))) kvs)
           = drop n (backlog kvs)"
    and "other_keys (deleteURLsBatch (map entry_task (take n (backlog kvs))) kvs)
           = other_keys kvs"
    and "db_inv (deleteURLsBatch (map entry_task (take n (backlog kvs))) kvs)"
proof -
  let ?taken = "take n (backlog kvs)"
  have twf: "list_all entry_wf ?taken"
    using wf by (auto simp: backlog_wf_def list_all_iff dest: in_set_takeD)
  have keys: "(\<lambda>t. URLPrefix @ URL t) ` set (map entry_task ?taken) = fst ` set ?taken"
    using twf by (rule wf_task_keys)
  have del: "deleteURLsBatch (map entry_task ?taken) kvs
           = filter (\<lambda>kv. fst kv \<notin> fst ` set ?taken) kvs"
    using keys by (simp add: deleteURLsBatch_filter)
  show "backlog (deleteURLsBatch (map entry_task ?taken) kvs) = drop n (backlog kvs)"
    using filter_not_in_take [OF distinct_backlog [OF inv], of n]
    by (simp add: del backlog_filter)
  have "HasPrefix (fst x) URLPrefix" if "x \<in> set ?taken" for x
    using in_set_takeD [OF that] by (simp add: backlog_def)
  then have np: "\<not> HasPrefix (fst kv) URLPrefix \<Longrightarrow> fst kv \<notin> fst ` set ?taken" for kv
    by (metis (no_types, lifting) imageE)
  have "filter (\<lambda>kv. \<not> HasPrefix (fst kv) URLPrefix)
               (filter (\<lambda>kv. fst kv \<notin> fst ` set ?taken) kvs)
           = filter (\<lambda>kv. fst kv \<notin> fst ` set ?taken \<and> \<not> HasPrefix (fst kv) URLPrefix) kvs"
    by (simp only: filter_filter)
  also have "\<dots> = filter (\<lambda>kv. \<not> HasPrefix (fst kv) URLPrefix) kvs"
    by (rule filter_cong [OF refl]) (use np in blast)
  finally have "filter (\<lambda>kv. \<not> HasPrefix (fst kv) URLPrefix)
               (filter (\<lambda>kv. fst kv \<notin> fst ` set ?taken) kvs)
           = filter (\<lambda>kv. \<not> HasPrefix (fst kv) URLPrefix) kvs" .
  then show "other_keys (deleteURLsBatch (map entry_task ?taken) kvs) = other_keys kvs"
    by (simp add: del other_keys_def)
  show "db_inv (deleteURLsBatch (map entry_task ?taken) kvs)"
    using inv by (simp add: del db_inv_filter)
qed

lemma entry_task_inj:
  assumes "entry_wf a" "entry_wf b" "entry_task a = entry_task b"
  shows "fst a = fst b"
proof -
  have "fst a = URLPrefix @ URL (entry_task a)" using assms(1) by (simp add: entry_wf_key)
  also have "\<dots> = URLPrefix @ URL (entry_task b)" using assms(3) by simp
  also have "\<dots> = fst b" using assms(2) by (simp add: entry_wf_key)
  finally show ?thesis .
qed

lemma take_drop_tasks_disjoint:
  assumes d: "distinct (map fst xs)" and wf: "list_all entry_wf xs"
  shows "set (map entry_task (take m (drop n xs))) \<inter> set (map entry_task (take n xs)) = {}"
proof (rule ccontr)
  assume "\<not> ?thesis"
  then obtain t where t1: "t \<in> set (map entry_task (take m (drop n xs)))"
    and t2: "t \<in> set (map entry_task (take n xs))" by blast
  from t1 obtain a where a: "a \<in> set (take m (drop n xs))" and ta: "entry_task a = t"
    unfolding set_map by blast
  from t2 obtain b where b: "b \<in> set (take n xs)" and tb: "entry_task b = t"
    unfolding set_map by blast
  have a': "a \<in> set (drop n xs)" using a by (rule in_set_takeD)
  have ax: "a \<in> set xs" using a' by (rule in_set_dropD)
  have bx: "b \<in> set xs" using b by (rule in_set_takeD)
  have "entry_wf a" "entry_wf b"
    using wf ax bx by (simp_all add: list_all_iff)
  then have k: "fst a = fst b" using ta tb by (intro entry_task_inj) simp_all
  have "distinct (map fst (take n xs @ drop n xs))" using d by simp
  then have "distinct (map fst (take n xs)) \<and> distinct (map fst (drop n xs))
      \<and> set (map fst (take n xs)) \<inter> set (map fst (drop n xs)) = {}"
    unfolding map_append distinct_append .
  then have dis: "set (map fst (take n xs)) \<inter> set (map fst (drop n xs)) = {}" by (elim conjE)
  have "fst b \<in> fst ` set (take n xs)" using b by (rule imageI)
  then have "fst b \<in> set (map fst (take n xs))" by (simp only: set_map)
  moreover have "fst a \<in> fst ` set (drop n xs)" using a' by (rule imageI)
  then have "fst a \<in> set (map fst (drop n xs))" by (simp only: set_map)
  ultimately have "fst a \<in> set (map fst (take n xs)) \<inter> set (map fst (drop n xs))"
    using k by (intro IntI) simp_all
  then show False unfolding dis by (rule emptyE)
qed

lemma db_put_set: "set (db_put k v kvs) \<subseteq> insert (k, v) (set kvs)"
proof (induction kvs)
  case Nil
  then show ?case by simp
next
  case (Cons a kvs)
  obtain k' v' where a: "a = (k', v')" by (cases a)
  show ?case
    using Cons.IH by (simp add: a subset_iff) blast
qed

lemma db_put_keys: "set (map fst (db_put k v kvs)) = insert k (set (map fst kvs))"
proof (induction kvs)
  case Nil
  then show ?case by simp
next
  case (Cons a kvs)
  obtain k' v' where a: "a = (k', v')" by (cases a)
  show ?case
    using Cons.IH by (simp add: a insert_commute del: set_map)
qed

lemma db_inv_put: "db_inv kvs \<Longrightarrow> db_inv (db_put k v kvs)"
proof (induction kvs)
  case Nil
  then show ?case by (simp add: db_inv_def)
next
  case (Cons a kvs)
  obtain k' v' where a: "a = (k', v')" by (cases a)
  have IH: "db_inv (db_put k v kvs)" using Cons by (simp add: db_inv_def)
  have keys: "set (map fst (db_put k v kvs)) = insert k (set (map fst kvs))"
    by (rule db_put_keys)
  show ?case
  proof (cases "k = k'")
    case True
    then show ?thesis using Cons.prems by (simp add: a db_inv_def)
  next
    case False
    show ?thesis
    proof (cases "k < k'")
      case True
      then show ?thesis using Cons.prems False by (auto simp: a db_inv_def)
    next
      case nlt: False
      then have "k' < k" using False by simp
      moreover have "sorted (map fst kvs)" "distinct (map fst kvs)"
        "k' \<notin> set (map fst kvs)" "\<forall>y \<in> set (map fst kvs). k' \<le> y"
        using Cons.prems by (simp_all add: a db_inv_def)
      ultimately have "k' \<notin> set (map fst (db_put k v kvs))"
        "\<forall>y \<in> set (map fst (db_put k v kvs)). k' \<le> y"
        unfolding keys using False by auto
      then show ?thesis
        using IH False nlt by (simp add: a db_inv_def del: set_map)
    qed
  qed
qed

lemma json_from_ascii:
  "\<forall>c \<in> set s. of_char c < (128::nat) \<Longrightarrow> json_from 0 s = s"
  by (induction s) (simp_all add: rune_width_def byte_in_def)

lemma json_string_ascii:
  "\<forall>c \<in> set s. of_char c < (128::nat) \<Longrightarrow> json_string s = s"
  by (simp add: json_string_def json_from_ascii)

lemma json_task_fields [simp]:
  "Depth (json_task t) = Depth t"
  "Timestamp (json_task t) = Timestamp t"
  "Retries (json_task t) = Retries t"
  "URL (json_task t) = json_string (URL t)"
  by (simp_all add: json_task_def)

lemma json_task_stable: "json_string (URL t) = URL t \<Longrightarrow> json_task t = t"
  by (simp add: json_task_def)

text \<open>
  \<open>StoreURL\<close> keeps the backlog well formed when the URL of the task is read back from
  its JSON text as it is, as every ASCII URL is.
\<close>

lemma StoreURL_wf:
  assumes "backlog_wf (urlDB s)" and st: "json_string (URL t) = URL t"
  shows "backlog_wf (urlDB (StoreURL t s))"
proof -
  have j: "json_task t = t" using st by (rule json_task_stable)
  have "entry_wf x" if "x \<in> set (db_put (URLPrefix @ URL t) (TaskJSON t) (urlDB s))"
    "HasPrefix (fst x) URLPrefix" for x
  proof -
    from that(1) db_put_set have "x = (URLPrefix @ URL t, TaskJSON t) \<or> x \<in> set (urlDB s)"
      by fastforce
    then show ?thesis
    proof
      assume "x = (URLPrefix @ URL t, TaskJSON t)"
      then show ?thesis by simp
    next
      assume "x \<in> set (urlDB s)"
      then have "x \<in> set (backlog (urlDB s))" using that(2) by (simp add: backlog_def)
      then show ?thesis using assms(1) by (simp add: backlog_wf_def list_all_iff)
    qed
  qed
  then show ?thesis
    by (simp add: StoreURL_def j backlog_wf_def backlog_def list_all_iff)
qed


section \<open>Counter consistency of the store\<close>

lemma bump_findings_fields:
  "EmailsFound (bump_findings r m) = EmailsFound m + int (length (Emails r))"
  "KeywordsFound (bump_findings r m) = KeywordsFound m + int (length (Keywords r))"
  "DeadLinksFound (bump_findings r m) = DeadLinksFound m + int (length (DeadLinks r))"
  "DeadDomainsFound (bump_findings r m) = DeadDomainsFound m + int (length (DeadDomains r))"
  "URLsProcessed (bump_findings r m) = URLsProcessed m + 1"
  "Errors (bump_findings r m) = Errors m + (if Error r = [] then 0 else 1)"
  "LinksChecked (bump_findings r m) = LinksChecked m"
  by (simp_all add: bump_findings_def Let_def)

text \<open>
  The counters of emails, dead links and dead domains of \<open>BadgerStorage\<close> are the sums of
  the list lengths over the results persisted; the keyword counter is the sum of the
  numbers of distinct keywords.
\<close>

lemma store_results_counters:
  "EmailsFound (metrics (store_results rs s)) =
     EmailsFound (metrics s) + (\<Sum>r\<leftarrow>rs. int (length (Emails r)))"
  "KeywordsFound (metrics (store_results rs s)) =
     KeywordsFound (metrics s) + (\<Sum>r\<leftarrow>rs. int (length (Keywords r)))"
  "DeadLinksFound (metrics (store_results rs s)) =
     DeadLinksFound (metrics s) + (\<Sum>r\<leftarrow>rs. int (length (DeadLinks r)))"
  "DeadDomainsFound (metrics (store_results rs s)) =
     DeadDomainsFound (metrics s) + (\<Sum>r\<leftarrow>rs. int (length (DeadDomains r)))"
  unfolding store_results_def
  by (induction rs arbitrary: s; simp add: StoreResult_def bump_findings_fields)+

text \<open>
  Claim C1. The claim asks that \<open>keywords_found\<close> be the sum, over the persisted results,
  of the per-keyword counts. \<open>StoreResult\<close> adds \<open>len(result.Keywords)\<close>, the number of
  distinct keywords of the result, instead: after persisting the single result whose
  keyword map is \<open>{"golang": 3}\<close> on a fresh store the counter is 1, the sum of the counts
  is 3. (The worker, in \<open>processURL\<close>, feeds the metrics collector's counter of the same
  name with the sum of the counts.) \<open>FastFileStorage.StoreResult\<close> counts the same way.
\<close>

theorem C1_keywords_found_counts_distinct_keywords:
  "KeywordsFound (metrics (store_results
       [(empty_result ''http://a.io/'' 1700000000)\<lparr>Keywords := [(''golang'', 3)]\<rparr>]
       new_storage)) = 1
   \<and> KeywordsFound (fmetrics (FastStoreResult
       ((empty_result ''http://a.io/'' 1700000000)\<lparr>Keywords := [(''golang'', 3)]\<rparr>)
       \<lparr>written = [], fmetrics = zero_metrics\<rparr>)) = 1
   \<and> keyword_total ((empty_result ''http://a.io/'' 1700000000)\<lparr>Keywords := [(''golang'', 3)]\<rparr>) = 3"
  by (simp add: store_results_def StoreResult_def bump_findings_def new_storage_def
      FastStoreResult_def zero_metrics_def empty_result_def keyword_total_def)


section \<open>The worker: frames of its steps\<close>

lemma map_of_db_put: "map_of (db_put k v kvs) = (map_of kvs)(k \<mapsto> v)"
proof (induction kvs)
  case Nil
  then show ?case by simp
next
  case (Cons a kvs)
  obtain k' v' where a: "a = (k', v')" by (cases a)
  show ?case using Cons.IH by (auto simp: a fun_upd_twist)
qed

lemma map_of_results_set: "map_of (results_set k v kvs) k = Some v"
proof (induction kvs)
  case Nil
  then show ?case by simp
next
  case (Cons a kvs)
  obtain k' v' where a: "a = (k', v')" by (cases a)
  show ?case using Cons.IH by (simp add: a)
qed

lemma StoreResult_fields [simp]:
  "urlDB (StoreResult r s) = urlDB s"
  "metrics (StoreResult r s) = bump_findings r (metrics s)"
  "map_of (resultsDB (StoreResult r s)) (result_key r) = Some r"
  by (simp_all add: StoreResult_def map_of_results_set)

lemma finalize_fields [simp]:
  "URLQueue (finalize r w) = URLQueue w"
  "BloomFilter (finalize r w) = BloomFilter w"
  "Storage (finalize r w) = StoreResult r (Storage w)"
  "RobotsCache (finalize r w) = RobotsCache w"
  "Extractor (finalize r w) = Extractor w"
  "Metrics (finalize r w) = UpdateURLsProcessed 1 (Metrics w)"
  "getLog (finalize r w) = getLog w"
  "ticks (finalize r w) = ticks w"
  by (simp_all add: finalize_def)

lemma Update_fields [simp]:
  "Errors (UpdateURLsProcessed d m) = Errors m"
  "URLsProcessed (UpdateURLsProcessed d m) = URLsProcessed m + d"
  "Errors (UpdateErrors d m) = Errors m + d"
  "URLsProcessed (UpdateErrors d m) = URLsProcessed m"
  "Errors (UpdateEmailsFound d m) = Errors m"
  "Errors (UpdateKeywordsFound d m) = Errors m"
  "Errors (UpdateLinksChecked d m) = Errors m"
  "Errors (UpdateDeadLinksFound d m) = Errors m"
  "Errors (UpdateDeadDomainsFound d m) = Errors m"
  by (simp_all add: UpdateURLsProcessed_def UpdateErrors_def UpdateEmailsFound_def
      UpdateKeywordsFound_def UpdateLinksChecked_def UpdateDeadLinksFound_def
      UpdateDeadDomainsFound_def)

lemma fetchURL_frame:
  "URLQueue (snd (fetchURL e u w)) = URLQueue w"
  "BloomFilter (snd (fetchURL e u w)) = BloomFilter w"
  "Storage (snd (fetchURL e u w)) = Storage w"
  "Metrics (snd (fetchURL e u w)) = Metrics w"
  "ticks (snd (fetchURL e u w)) = ticks w"
  by (simp_all add: fetchURL_def Let_def split: http_outcome.splits read_result.splits)

lemma check_links_frame:
  "URLQueue (snd (check_links e content t r w)) = URLQueue w"
  "BloomFilter (snd (check_links e content t r w)) = BloomFilter w"
  "Storage (snd (check_links e content t r w)) = Storage w"
  "ticks (snd (check_links e content t r w)) = ticks w"
  "getLog (snd (check_links e content t r w)) = getLog w"
  by (simp_all add: check_links_def Let_def split_beta)

lemma extract_by_mode_frame:
  "URLQueue (snd (extract_by_mode e c content t r w)) = URLQueue w"
  "BloomFilter (snd (extract_by_mode e c content t r w)) = BloomFilter w"
  "Storage (snd (extract_by_mode e c content t r w)) = Storage w"
  "ticks (snd (extract_by_mode e c content t r w)) = ticks w"
  "getLog (snd (extract_by_mode e c content t r w)) = getLog w"
  by (simp_all add: extract_by_mode_def Let_def split_beta check_links_frame)


section \<open>The loop of \<open>addNewURLs\<close>\<close>

lemma addNewURLs_Cons:
  "addNewURLs e (url # urls) depth w =
     (if \<not> IsValidURL (url_Parse e) url \<or> bloom_Test e (BloomFilter w) url
      then addNewURLs e urls depth w
      else (url # fst (addNewURLs e urls depth (add_one e url depth w)),
            snd (addNewURLs e urls depth (add_one e url depth w))))"
proof -
  let ?t = "\<lparr>URL = url, Depth = depth, Timestamp = time_Now e (ticks w), Retries = 0\<rparr>"
  obtain q' err where p: "Push (URLQueue w) ?t = (q', err)" by (cases "Push (URLQueue w) ?t")
  show ?thesis
    by (cases err) (simp_all add: p add_one_def now_def Let_def split_beta)
qed

lemma addNewURLs_induct [consumes 1, case_names Nil skip add]:
  assumes run: "addNewURLs e urls depth w = (new, w')"
    and base: "\<And>w. P [] w [] w"
    and skip: "\<And>url urls w new w'.
         \<not> IsValidURL (url_Parse e) url \<or> bloom_Test e (BloomFilter w) url \<Longrightarrow>
         addNewURLs e urls depth w = (new, w') \<Longrightarrow> P urls w new w' \<Longrightarrow>
         P (url # urls) w new w'"
    and add: "\<And>url urls w new w'.
         IsValidURL (url_Parse e) url \<Longrightarrow> \<not> bloom_Test e (BloomFilter w) url \<Longrightarrow>
         addNewURLs e urls depth (add_one e url depth w) = (new, w') \<Longrightarrow>
         P urls (add_one e url depth w) new w' \<Longrightarrow>
         P (url # urls) w (url # new) w'"
  shows "P urls w new w'"
  using run
proof (induction urls arbitrary: w new w')
  case Nil
  then show ?case using base by simp
next
  case (Cons url urls)
  show ?case
  proof (cases "\<not> IsValidURL (url_Parse e) url \<or> bloom_Test e (BloomFilter w) url")
    case True
    then have r: "addNewURLs e urls depth w = (new, w')"
      using Cons.prems by (simp only: addNewURLs_Cons if_True)
    show ?thesis using skip [OF True r Cons.IH [OF r]] .
  next
    case False
    obtain new1 w1 where r: "addNewURLs e urls depth (add_one e url depth w) = (new1, w1)"
      by (cases "addNewURLs e urls depth (add_one e url depth w)")
    have eq: "new = url # new1" "w' = w1"
      using Cons.prems False r by (simp_all only: addNewURLs_Cons if_False fst_conv snd_conv prod.inject)
    show ?thesis
      unfolding eq using add [OF _ _ r Cons.IH [OF r]] False by blast
  qed
qed

lemma add_one_cases:
  fixes e url depth w
  defines "t \<equiv> \<lparr>URL = url, Depth = depth, Timestamp = time_Now e (ticks w), Retries = 0\<rparr>"
  obtains (stored) "maxSize (URLQueue w) \<le> int (length (heap (URLQueue w)))"
      "URLQueue (add_one e url depth w) = URLQueue w"
      "Storage (add_one e url depth w) = StoreURL t (Storage w)"
  | (pushed) "int (length (heap (URLQueue w))) < maxSize (URLQueue w)"
      "set (heap (URLQueue (add_one e url depth w))) = insert (item_of t) (set (heap (URLQueue w)))"
      "maxSize (URLQueue (add_one e url depth w)) = maxSize (URLQueue w)"
      "Storage (add_one e url depth w) = Storage w"
proof (cases rule: Push_cases [of "URLQueue w" t])
  case full
  then show ?thesis using stored by (simp add: add_one_def t_def)
next
  case (room q')
  then show ?thesis
    using pushed mset_add_set [OF room(2)] by (simp add: add_one_def t_def item_of_def)
qed

lemma add_one_frame [simp]:
  "Metrics (add_one e url depth w) = Metrics w"
  "getLog (add_one e url depth w) = getLog w"
  "RobotsCache (add_one e url depth w) = RobotsCache w"
  "Extractor (add_one e url depth w) = Extractor w"
  "members (BloomFilter (add_one e url depth w)) = url # members (BloomFilter w)"
  "resultsDB (Storage (add_one e url depth w)) = resultsDB (Storage w)"
  "metrics (Storage (add_one e url depth w)) = metrics (Storage w)"
  by (simp_all add: add_one_def Let_def bloom_Add_def StoreURL_def split: option.splits)

lemma add_one_queue_inv:
  "queue_inv (URLQueue w) \<Longrightarrow> queue_inv (URLQueue (add_one e url depth w))"
  using queue_inv_Push [of "URLQueue w"]
  by (simp add: add_one_def Let_def split: option.splits)

lemma addNewURLs_frame:
  assumes "addNewURLs e urls depth w = (new, w')"
  shows "Metrics w' = Metrics w \<and> getLog w' = getLog w \<and> RobotsCache w' = RobotsCache w
       \<and> Extractor w' = Extractor w \<and> resultsDB (Storage w') = resultsDB (Storage w)
       \<and> metrics (Storage w') = metrics (Storage w)"
  using assms by (induction rule: addNewURLs_induct) simp_all

lemma addNewURLs_queue_inv:
  assumes "addNewURLs e urls depth w = (new, w')"
  shows "queue_inv (URLQueue w) \<longrightarrow> queue_inv (URLQueue w')"
  using assms by (induction rule: addNewURLs_induct) (simp_all add: add_one_queue_inv)

lemma addNewURLs_new:
  assumes "addNewURLs e urls depth w = (new, w')"
  shows "set new \<subseteq> set urls \<and> (\<forall>u \<in> set new. IsValidURL (url_Parse e) u)
       \<and> set new \<inter> set (members (BloomFilter w)) = {}"
  using assms
proof (induction rule: addNewURLs_induct)
  case (add url urls w new w')
  moreover have "url \<notin> set (members (BloomFilter w))"
    using add(2) by (simp add: bloom_Test_def)
  ultimately show ?case by auto
qed auto

lemma addNewURLs_heap_grows:
  assumes "addNewURLs e urls depth w = (new, w')"
  shows "set (heap (URLQueue w)) \<subseteq> set (heap (URLQueue w'))"
  using assms
proof (induction rule: addNewURLs_induct)
  case (add url urls w new w')
  have "set (heap (URLQueue w)) \<subseteq> set (heap (URLQueue (add_one e url depth w)))"
    by (cases rule: add_one_cases [of w e url depth]) auto
  then show ?case using add by blast
qed simp_all

lemma addNewURLs_heap_new:
  assumes "addNewURLs e urls depth w = (new, w')"
  shows "\<forall>it \<in> set (heap (URLQueue w')). it \<in> set (heap (URLQueue w))
           \<or> (Depth (task it) = depth \<and> URL (task it) \<in> set new)"
  using assms
proof (induction rule: addNewURLs_induct)
  case (add url urls w new w')
  have "\<forall>it \<in> set (heap (URLQueue (add_one e url depth w))).
          it \<in> set (heap (URLQueue w)) \<or> (Depth (task it) = depth \<and> URL (task it) = url)"
    by (cases rule: add_one_cases [of w e url depth])
       (auto simp: item_of_def)
  then show ?case using add(4) by auto
qed simp_all

lemma addNewURLs_backlog_new:
  assumes "addNewURLs e urls depth w = (new, w')"
  shows "\<forall>kv \<in> set (urlDB (Storage w')). kv \<in> set (urlDB (Storage w))
           \<or> (\<exists>t. kv = (URLPrefix @ URL t, TaskJSON (json_task t)) \<and> Depth t = depth \<and> URL t \<in> set new)"
  using assms
proof (induction rule: addNewURLs_induct)
  case (add url urls w new w')
  let ?t = "\<lparr>URL = url, Depth = depth, Timestamp = time_Now e (ticks w), Retries = 0\<rparr>"
  have "\<forall>kv \<in> set (urlDB (Storage (add_one e url depth w))).
          kv \<in> set (urlDB (Storage w)) \<or> kv = (URLPrefix @ URL ?t, TaskJSON (json_task ?t))"
  proof (cases rule: add_one_cases [of w e url depth])
    case stored
    show ?thesis
      unfolding stored(3) using db_put_set [of "URLPrefix @ url" "TaskJSON (json_task ?t)" "urlDB (Storage w)"]
      by (auto simp: StoreURL_def)
  next
    case pushed
    then show ?thesis by simp
  qed
  then have "\<forall>kv \<in> set (urlDB (Storage (add_one e url depth w))).
          kv \<in> set (urlDB (Storage w))
        \<or> (\<exists>t. kv = (URLPrefix @ URL t, TaskJSON (json_task t)) \<and> Depth t = depth \<and> URL t = url)"
    by (metis URLTask.select_convs(1,2))
  then show ?case using add(4) by (simp only: set_simps) blast
qed simp_all

lemma addNewURLs_other_keys:
  assumes "addNewURLs e urls depth w = (new, w')"
  shows "\<forall>k. k \<notin> (\<lambda>u. URLPrefix @ u) ` set new \<longrightarrow>
            map_of (urlDB (Storage w')) k = map_of (urlDB (Storage w)) k"
  using assms
proof (induction rule: addNewURLs_induct)
  case (add url urls w new w')
  have "map_of (urlDB (Storage (add_one e url depth w))) k = map_of (urlDB (Storage w)) k"
    if "k \<noteq> URLPrefix @ url" for k
    by (cases rule: add_one_cases [of w e url depth])
       (use that in \<open>simp_all add: StoreURL_def map_of_db_put\<close>)
  then show ?case using add(4) by simp
qed simp_all

text \<open>Every URL that \<open>addNewURLs\<close> returns has its task in the queue or in the backlog.\<close>

lemma addNewURLs_routed:
  assumes "addNewURLs e urls depth w = (new, w')"
  shows "\<forall>u \<in> set new. \<exists>t. URL t = u \<and> Depth t = depth \<and> Retries t = 0
           \<and> (item_of t \<in> set (heap (URLQueue w'))
              \<or> map_of (urlDB (Storage w')) (URLPrefix @ u) = Some (TaskJSON (json_task t)))"
  using assms
proof (induction rule: addNewURLs_induct)
  case (add url urls w new w')
  let ?t = "\<lparr>URL = url, Depth = depth, Timestamp = time_Now e (ticks w), Retries = 0\<rparr>"
  let ?w1 = "add_one e url depth w"
  have "url \<notin> set new"
    using addNewURLs_new [OF add(3)] by auto
  then have untouched: "map_of (urlDB (Storage w')) (URLPrefix @ url)
      = map_of (urlDB (Storage ?w1)) (URLPrefix @ url)"
    using addNewURLs_other_keys [OF add(3)] by auto
  have grows: "set (heap (URLQueue ?w1)) \<subseteq> set (heap (URLQueue w'))"
    using add(3) by (rule addNewURLs_heap_grows)
  have "item_of ?t \<in> set (heap (URLQueue ?w1))
      \<or> map_of (urlDB (Storage ?w1)) (URLPrefix @ url) = Some (TaskJSON (json_task ?t))"
    by (cases rule: add_one_cases [of w e url depth])
       (auto simp: StoreURL_def map_of_db_put)
  then have "item_of ?t \<in> set (heap (URLQueue w'))
      \<or> map_of (urlDB (Storage w')) (URLPrefix @ url) = Some (TaskJSON (json_task ?t))"
    using grows untouched by auto
  then have "\<exists>t. URL t = url \<and> Depth t = depth \<and> Retries t = 0
           \<and> (item_of t \<in> set (heap (URLQueue w'))
              \<or> map_of (urlDB (Storage w')) (URLPrefix @ url) = Some (TaskJSON (json_task t)))"
    by (intro exI [of _ ?t]) simp
  then show ?case using add(4) by simp
qed simp_all

text \<open>On a full queue every push fails: the queue stays as it is and every task is stored.\<close>

lemma addNewURLs_full:
  assumes "addNewURLs e urls depth w = (new, w')"
  shows "maxSize (URLQueue w) \<le> int (length (heap (URLQueue w))) \<longrightarrow>
           URLQueue w' = URLQueue w
         \<and> (\<forall>u \<in> set new. \<exists>t. URL t = u \<and> Depth t = depth
               \<and> map_of (urlDB (Storage w')) (URLPrefix @ u) = Some (TaskJSON (json_task t)))"
  using assms
proof (induction rule: addNewURLs_induct)
  case (add url urls w new w')
  show ?case
  proof
    assume full: "maxSize (URLQueue w) \<le> int (length (heap (URLQueue w)))"
    let ?t = "\<lparr>URL = url, Depth = depth, Timestamp = time_Now e (ticks w), Retries = 0\<rparr>"
    let ?w1 = "add_one e url depth w"
    have q1: "URLQueue ?w1 = URLQueue w"
      and s1: "map_of (urlDB (Storage ?w1)) (URLPrefix @ url) = Some (TaskJSON (json_task ?t))"
      by (cases rule: add_one_cases [of w e url depth];
          use full in \<open>simp add: StoreURL_def map_of_db_put\<close>)+
    have IH: "URLQueue w' = URLQueue ?w1"
      "\<forall>u \<in> set new. \<exists>t. URL t = u \<and> Depth t = depth
               \<and> map_of (urlDB (Storage w')) (URLPrefix @ u) = Some (TaskJSON (json_task t))"
      using add(4) full unfolding q1 by simp_all
    have "url \<notin> set new"
      using addNewURLs_new [OF add(3)] by auto
    then have "map_of (urlDB (Storage w')) (URLPrefix @ url) = Some (TaskJSON (json_task ?t))"
      using addNewURLs_other_keys [OF add(3)] s1 by auto
    then have "\<exists>t. URL t = url \<and> Depth t = depth
               \<and> map_of (urlDB (Storage w')) (URLPrefix @ url) = Some (TaskJSON (json_task t))"
      by (intro exI [of _ ?t]) simp
    then show "URLQueue w' = URLQueue w
         \<and> (\<forall>u \<in> set (url # new). \<exists>t. URL t = u \<and> Depth t = depth
               \<and> map_of (urlDB (Storage w')) (URLPrefix @ u) = Some (TaskJSON (json_task t)))"
      using IH q1 by simp
  qed
qed simp_all


text \<open>Which URLs the loop returns: every valid URL that the Bloom filter did not report.\<close>

lemma add_one_members:
  "members (BloomFilter (add_one e url depth w)) = url # members (BloomFilter w)"
  by (simp add: add_one_def Let_def bloom_Add_def split: option.splits)

lemma addNewURLs_admits:
  assumes "addNewURLs e urls depth w = (new, w')"
  shows "\<forall>u \<in> set urls. IsValidURL (url_Parse e) u \<longrightarrow>
           u \<in> set new \<or> u \<in> set (members (BloomFilter w))
         \<or> (\<exists>ms. bloom_collision e ms u)"
  using assms
proof (induction rule: addNewURLs_induct)
  case Nil
  then show ?case by simp
next
  case (skip url urls w new w')
  have "IsValidURL (url_Parse e) url \<longrightarrow>
      url \<in> set (members (BloomFilter w)) \<or> (\<exists>ms. bloom_collision e ms url)"
    using skip(1) by (auto simp: bloom_Test_def)
  then show ?case using skip(3) by simp
next
  case (add url urls w new w')
  have "u \<in> set (url # new) \<or> u \<in> set (members (BloomFilter w))
         \<or> (\<exists>ms. bloom_collision e ms u)"
    if "u \<in> set urls" "IsValidURL (url_Parse e) u" for u
  proof -
    from add(4) that have "u \<in> set new \<or> u \<in> set (members (BloomFilter (add_one e url depth w)))
         \<or> (\<exists>ms. bloom_collision e ms u)" by blast
    then show ?thesis unfolding add_one_members by auto
  qed
  then show ?case by simp
qed

lemma addNewURLs_members:
  assumes "addNewURLs e urls depth w = (new, w')"
  shows "members (BloomFilter w') = rev new @ members (BloomFilter w)"
  using assms
proof (induction rule: addNewURLs_induct)
  case (add url urls w new w')
  then show ?case by (simp add: add_one_members)
qed simp_all

text \<open>One round of the loop on a full queue: the task goes to \<open>StoreURL\<close>.\<close>

lemma addNewURLs_full_round:
  assumes v: "IsValidURL (url_Parse e) url" and b: "\<not> bloom_Test e (BloomFilter w) url"
    and f: "maxSize (URLQueue w) \<le> int (length (heap (URLQueue w)))"
  shows "addNewURLs e (url # urls) depth w =
     (url # fst (addNewURLs e urls depth
        (w\<lparr>BloomFilter := bloom_Add url (BloomFilter w), ticks := ticks w + 1,
           Storage := StoreURL \<lparr>URL = url, Depth = depth, Timestamp = time_Now e (ticks w),
                                 Retries = 0\<rparr> (Storage w)\<rparr>)),
      snd (addNewURLs e urls depth
        (w\<lparr>BloomFilter := bloom_Add url (BloomFilter w), ticks := ticks w + 1,
           Storage := StoreURL \<lparr>URL = url, Depth = depth, Timestamp = time_Now e (ticks w),
                                 Retries = 0\<rparr> (Storage w)\<rparr>)))"
proof -
  have "add_one e url depth w =
      w\<lparr>BloomFilter := bloom_Add url (BloomFilter w), ticks := ticks w + 1,
         Storage := StoreURL \<lparr>URL = url, Depth = depth, Timestamp = time_Now e (ticks w),
                               Retries = 0\<rparr> (Storage w)\<rparr>"
    using f by (simp add: add_one_def Let_def Push_full)
  then show ?thesis using v b by (simp only: addNewURLs_Cons) simp
qed

section \<open>The paths of \<open>processURL\<close>\<close>

lemma processURL_unfold:
  "processURL e c t maxDepth w =
     (let result = empty_result (URL t) (time_Now e (ticks w));
          cf = CanFetch e UserAgent (URL t) (RobotsCache w);
          w1 = w\<lparr>ticks := ticks w + 1, RobotsCache := snd cf\<rparr>
      in if \<not> fst cf then finalize (result\<lparr>Error := ''blocked by robots.txt''\<rparr>) w1
         else if \<not> rate_Wait e (URL t)
         then finalize (result\<lparr>Error := ''rate limit context cancelled''\<rparr>) w1
         else let f = fetchURL e (URL t) w1;
                  result1 = result\<lparr>StatusCode := fst (snd (fst f))\<rparr>
              in case snd (snd (fst f)) of
                   Some msg \<Rightarrow>
                     finalize (result1\<lparr>Error := msg\<rparr>)
                       ((snd f)\<lparr>Metrics := UpdateErrors 1 (Metrics (snd f))\<rparr>)
                 | None \<Rightarrow>
                    (let x = extract_by_mode e c (fst (fst f)) t
                               (result1\<lparr>Title := ExtractTitle e (fst (fst f))\<rparr>) (snd f)
                     in if Depth t < maxDepth
                        then (let a = addNewURLs e (ExtractLinks e (fst (fst f)) (URL t))
                                        (Depth t + 1) (snd x)
                              in finalize ((fst x)\<lparr>NewURLs := fst a\<rparr>) (snd a))
                        else finalize (fst x) (snd x)))"
  by (simp add: processURL_def now_def split_beta Let_def split: option.split)

lemma processURL_blocked:
  assumes "\<not> fst (CanFetch e UserAgent (URL t) (RobotsCache w))"
  shows "processURL e c t maxDepth w =
     finalize ((empty_result (URL t) (time_Now e (ticks w)))\<lparr>Error := ''blocked by robots.txt''\<rparr>)
       (w\<lparr>ticks := ticks w + 1,
          RobotsCache := snd (CanFetch e UserAgent (URL t) (RobotsCache w))\<rparr>)"
  using assms by (simp add: processURL_unfold Let_def)



text \<open>
  The store keeps a tally of its own: \<open>StoreResult\<close> counts every result with a
  non-empty error field, that of a URL blocked by robots.txt as well.
\<close>

lemma robots_block_tallied_by_store:
  assumes "\<not> fst (CanFetch e UserAgent (URL t) (RobotsCache w))"
  shows "Errors (metrics (Storage (processURL e c t maxDepth w)))
           = Errors (metrics (Storage w)) + 1"
  by (simp add: processURL_blocked [OF assms] bump_findings_fields)

section \<open>Claims about robots denial and rejected content\<close>

text \<open>
  Claim C4. When \<open>CanFetch\<close> returns false for the URL of the task, \<open>processURL\<close>
  issues no GET (the log of the crawler's requests is unchanged), persists one result for
  the URL whose error field is \<open>blocked by robots.txt\<close> and whose status is 0, counts the
  URL as processed and leaves the error counter of the metrics collector (the one
  \<open>UpdateErrors\<close> feeds) as it is; nothing is added to the queue or the backlog.
\<close>

theorem C4_robots_denial_issues_no_get:
  assumes "\<not> fst (CanFetch e UserAgent (URL t) (RobotsCache w))"
  shows "let w' = processURL e c t maxDepth w;
             r = (empty_result (URL t) (time_Now e (ticks w)))
                   \<lparr>Error := ''blocked by robots.txt''\<rparr>
         in getLog w' = getLog w
          \<and> resultsDB (Storage w') = results_set (result_key r) r (resultsDB (Storage w))
          \<and> map_of (resultsDB (Storage w')) (result_key r) = Some r
          \<and> rURL r = URL t \<and> Error r = ''blocked by robots.txt'' \<and> StatusCode r = 0
          \<and> Errors (Metrics w') = Errors (Metrics w)
          \<and> URLsProcessed (Metrics w') = URLsProcessed (Metrics w) + 1
          \<and> URLQueue w' = URLQueue w \<and> urlDB (Storage w') = urlDB (Storage w)
          \<and> BloomFilter w' = BloomFilter w \<and> Extractor w' = Extractor w"
  unfolding Let_def processURL_blocked [OF assms]
  by (simp add: empty_result_def StoreResult_def map_of_results_set)

theorem C4_robots_denial_issues_no_get_witness:
  "\<not> fst (CanFetch sample_env UserAgent (URL private_task) (RobotsCache sample_world))
   \<and> getLog (processURL sample_env sample_service private_task 5 sample_world) = []
   \<and> map (\<lambda>kv. (rURL (snd kv), StatusCode (snd kv), Error (snd kv)))
        (resultsDB (Storage (processURL sample_env sample_service private_task 5 sample_world)))
       = [(''http://a.io/private/x'', 0, ''blocked by robots.txt'')]
   \<and> Errors (Metrics (processURL sample_env sample_service private_task 5 sample_world)) = 0
   \<and> URLsProcessed (Metrics (processURL sample_env sample_service private_task 5 sample_world))
       = 1"
proof -
  have b: "\<not> fst (CanFetch sample_env UserAgent (URL private_task) (RobotsCache sample_world))"
    by code_simp
  have w: "getLog sample_world = []" "resultsDB (Storage sample_world) = []"
    "Errors (Metrics sample_world) = 0" "URLsProcessed (Metrics sample_world) = 0"
    "ticks sample_world = 0"
    by (simp_all add: sample_world_def new_storage_def zero_metrics_def)
  have tm: "time_Now sample_env 0 = 1700000000" by (simp add: sample_env_def)
  from C4_robots_denial_issues_no_get [OF b, of sample_service 5]
  show ?thesis
    using b unfolding Let_def w tm
    by (simp add: empty_result_def private_task_def)
qed





section \<open>Claim about the URL-injection endpoint\<close>

lemma validate_urls_eq:
  "validate_urls parse urls =
     (filter (\<lambda>c. c \<noteq> [] \<and> url_accepted parse c) (map TrimSpace urls),
      filter (\<lambda>c. c \<noteq> [] \<and> \<not> url_accepted parse c) (map TrimSpace urls))"
  by (induction urls) (simp_all add: Let_def)

lemma push_valid_props:
  assumes "push_valid e vs w = (n, errs, w')"
  shows "(\<forall>it \<in> set (heap (URLQueue w')).
            it \<in> set (heap (URLQueue w))
          \<or> (Depth (task it) = 0 \<and> Retries (task it) = 0 \<and> URL (task it) \<in> set vs))
       \<and> int (length (heap (URLQueue w'))) = int (length (heap (URLQueue w))) + n
       \<and> n + int (length errs) = int (length vs)
       \<and> Storage w' = Storage w \<and> BloomFilter w' = BloomFilter w \<and> Metrics w' = Metrics w
       \<and> getLog w' = getLog w"
  using assms
proof (induction vs arbitrary: w n errs w')
  case Nil
  then show ?case by simp
next
  case (Cons v vs)
  let ?w1 = "w\<lparr>ticks := ticks w + 1\<rparr>"
  let ?t = "\<lparr>URL = v, Depth = 0, Timestamp = time_Now e (ticks w), Retries = 0\<rparr>"
  show ?case
  proof (cases rule: Push_cases [of "URLQueue ?w1" ?t])
    case full
    obtain n1 errs1 w2 where r: "push_valid e vs ?w1 = (n1, errs1, w2)"
      by (cases "push_valid e vs ?w1")
    have eq: "n = n1" "w' = w2" "length errs = Suc (length errs1)"
      using Cons.prems full(1) r by (auto simp: now_def Let_def)
    from Cons.IH [OF r] show ?thesis unfolding eq by auto
  next
    case (room q')
    let ?w2 = "?w1\<lparr>URLQueue := q'\<rparr>"
    obtain n1 errs1 w3 where r: "push_valid e vs ?w2 = (n1, errs1, w3)"
      by (cases "push_valid e vs ?w2")
    have eq: "n = n1 + 1" "w' = w3" "errs = errs1"
      using Cons.prems room(1) r by (auto simp: now_def Let_def)
    have s: "set (heap q') = insert \<lparr>task = ?t, priority = task_priority ?t\<rparr> (set (heap (URLQueue w)))"
      and l: "length (heap q') = Suc (length (heap (URLQueue w)))"
      using room(2) by (simp_all add: mset_add_set mset_add_length)
    from Cons.IH [OF r] show ?thesis unfolding eq using s l by auto
  qed
qed

text \<open>
  Claim C3, as the code has it. The endpoint trims each entry of the leading and trailing
  white space (\<open>strings.TrimSpace\<close>) and accepts a trimmed, non-blank URL when it
  parses with a non-empty scheme and a non-empty host, whatever the scheme; a task added
  to the queue has depth 0 and such a URL; the other non-blank URLs, and only they, are
  reported in \<open>invalid_urls\<close>, and no task is created for them. Blank entries are skipped
  without a report; a task that the full queue refuses is reported in \<open>errors\<close> and
  not stored.
\<close>

theorem C3_injection_checks_scheme_and_host_presence:
  assumes "handleAddURLs e (Some urls) w = (Inr resp, w')"
  shows "(\<forall>it \<in> set (heap (URLQueue w')).
            it \<in> set (heap (URLQueue w))
          \<or> (Depth (task it) = 0
             \<and> URL (task it) \<in> set (map TrimSpace urls)
             \<and> (\<exists>p. url_Parse e (URL (task it)) = Some p \<and> Scheme p \<noteq> [] \<and> Host p \<noteq> [])
             \<and> URL (task it) \<notin> set (invalid_urls resp)))
       \<and> invalid_urls resp
           = filter (\<lambda>c. c \<noteq> [] \<and> \<not> url_accepted (url_Parse e) c) (map TrimSpace urls)
       \<and> total_valid resp
           = int (length (filter (\<lambda>c. c \<noteq> [] \<and> url_accepted (url_Parse e) c)
                           (map TrimSpace urls)))
       \<and> added resp = int (length (heap (URLQueue w'))) - int (length (heap (URLQueue w)))
       \<and> added resp + int (length (errors resp)) = total_valid resp
       \<and> Storage w' = Storage w"
proof -
  let ?valid = "filter (\<lambda>c. c \<noteq> [] \<and> url_accepted (url_Parse e) c) (map TrimSpace urls)"
  let ?invalid = "filter (\<lambda>c. c \<noteq> [] \<and> \<not> url_accepted (url_Parse e) c) (map TrimSpace urls)"
  obtain n errs w2 where pv: "push_valid e ?valid w = (n, errs, w2)"
    by (cases "push_valid e ?valid w")
  have ne: "urls \<noteq> []" using assms by (auto simp: handleAddURLs_def split: if_splits)
  have r: "resp = \<lparr>added = n, total_valid = int (length ?valid), invalid_urls = ?invalid,
                    errors = errs\<rparr>" and w': "w' = w2"
    using assms ne pv by (simp_all add: handleAddURLs_def validate_urls_eq)
  note p = push_valid_props [OF pv]
  have acc: "\<exists>p. url_Parse e c = Some p \<and> Scheme p \<noteq> [] \<and> Host p \<noteq> []"
    if "url_accepted (url_Parse e) c" for c
    using that by (cases "url_Parse e c") (simp_all add: url_accepted_def)
  have "it \<in> set (heap (URLQueue w))
          \<or> (Depth (task it) = 0
             \<and> URL (task it) \<in> set (map TrimSpace urls)
             \<and> (\<exists>p. url_Parse e (URL (task it)) = Some p \<and> Scheme p \<noteq> [] \<and> Host p \<noteq> [])
             \<and> URL (task it) \<notin> set ?invalid)"
    if it: "it \<in> set (heap (URLQueue w2))" for it
  proof (cases "it \<in> set (heap (URLQueue w))")
    case True
    then show ?thesis by simp
  next
    case False
    then have d: "Depth (task it) = 0" and v: "URL (task it) \<in> set ?valid"
      using p it by blast+
    have a: "url_accepted (url_Parse e) (URL (task it))" using v by simp
    have "URL (task it) \<in> set (map TrimSpace urls)" using v by (simp del: set_map)
    moreover have "URL (task it) \<notin> set ?invalid" using a by simp
    ultimately show ?thesis using d acc [OF a] by blast
  qed
  then show ?thesis
    unfolding r w' using p by simp
qed

text \<open>
  The claim as stated fails on the request \<open>{"urls": ["ftp://files.example.com/pub"]}\<close>:
  the URL is accepted (\<open>added = 1\<close>, nothing in \<open>invalid_urls\<close>), a task of depth 0 is
  queued for it, and its scheme is neither \<open>http\<close> nor \<open>https\<close>
  (\<open>domain.IsValidURL\<close> rejects it).
\<close>

theorem C3_accepts_ftp_counterexample:
  "fst (handleAddURLs sample_env (Some [''ftp://files.example.com/pub'']) sample_world)
     = Inr \<lparr>added = 1, total_valid = 1, invalid_urls = [], errors = []\<rparr>
   \<and> map task (heap (URLQueue (snd (handleAddURLs sample_env
        (Some [''ftp://files.example.com/pub'']) sample_world))))
     = [\<lparr>URL = ''ftp://files.example.com/pub'', Depth = 0, Timestamp = 1700000000,
         Retries = 0\<rparr>]
   \<and> \<not> IsValidURL go_url_Parse ''ftp://files.example.com/pub''
   \<and> map_option Scheme (go_url_Parse ''ftp://files.example.com/pub'') = Some ''ftp''"
  by code_simp

theorem C3_injection_checks_scheme_and_host_presence_witness:
  "fst (handleAddURLs sample_env
          (Some [''ftp://files.example.com/pub'', ''  '', ''nohost'', '' http://a.io/ '',
                 [CHR 0xC2, CHR 0xA0] @ ''http://c.io/x'' @ [CHR 0xE3, CHR 0x80, CHR 0x80],
                 [CHR 0xC2, CHR 0xA0]])
          sample_world)
     = Inr \<lparr>added = 3, total_valid = 3, invalid_urls = [''nohost''], errors = []\<rparr>
   \<and> list_all (\<lambda>it. Depth (task it) = 0
         \<and> (\<exists>p. go_url_Parse (URL (task it)) = Some p \<and> Scheme p \<noteq> [] \<and> Host p \<noteq> [])
         \<and> URL (task it) \<noteq> ''nohost'')
       (heap (URLQueue (snd (handleAddURLs sample_env
          (Some [''ftp://files.example.com/pub'', ''  '', ''nohost'', '' http://a.io/ '',
                 [CHR 0xC2, CHR 0xA0] @ ''http://c.io/x'' @ [CHR 0xE3, CHR 0x80, CHR 0x80],
                 [CHR 0xC2, CHR 0xA0]])
          sample_world))))
   \<and> map (\<lambda>it. URL (task it)) (heap (URLQueue (snd (handleAddURLs sample_env
          (Some [''ftp://files.example.com/pub'', ''  '', ''nohost'', '' http://a.io/ '',
                 [CHR 0xC2, CHR 0xA0] @ ''http://c.io/x'' @ [CHR 0xE3, CHR 0x80, CHR 0x80],
                 [CHR 0xC2, CHR 0xA0]])
          sample_world))))
     = [''ftp://files.example.com/pub'', ''http://a.io/'', ''http://c.io/x'']"
proof -
  let ?urls = "[''ftp://files.example.com/pub'', ''  '', ''nohost'', '' http://a.io/ '',
                 [CHR 0xC2, CHR 0xA0] @ ''http://c.io/x'' @ [CHR 0xE3, CHR 0x80, CHR 0x80],
                 [CHR 0xC2, CHR 0xA0]]"
  obtain r w' where h: "handleAddURLs sample_env (Some ?urls) sample_world = (r, w')"
    by (cases "handleAddURLs sample_env (Some ?urls) sample_world")
  have f: "fst (handleAddURLs sample_env (Some ?urls) sample_world)
     = Inr \<lparr>added = 3, total_valid = 3, invalid_urls = [''nohost''], errors = []\<rparr>"
    by code_simp
  then have r: "r = Inr \<lparr>added = 3, total_valid = 3, invalid_urls = [''nohost''], errors = []\<rparr>"
    using h by simp
  have m: "map (\<lambda>it. URL (task it))
      (heap (URLQueue (snd (handleAddURLs sample_env (Some ?urls) sample_world))))
     = [''ftp://files.example.com/pub'', ''http://a.io/'', ''http://c.io/x'']"
    by code_simp
  have e: "heap (URLQueue sample_world) = []"
    by (simp add: sample_world_def NewPriorityURLQueue_def)
  have u: "url_Parse sample_env = go_url_Parse" by (simp add: sample_env_def)
  from C3_injection_checks_scheme_and_host_presence [OF h [unfolded r]]
  have "\<forall>it \<in> set (heap (URLQueue w')).
         Depth (task it) = 0
       \<and> (\<exists>p. go_url_Parse (URL (task it)) = Some p \<and> Scheme p \<noteq> [] \<and> Host p \<noteq> [])
       \<and> URL (task it) \<noteq> ''nohost''"
    unfolding e u by simp
  then show ?thesis using f m h by (simp add: list_all_iff)
qed

section \<open>The depth of the tasks that wait\<close>

lemma heap_Pop_mset:
  assumes ne: "h \<noteq> []"
  shows "mset (fst (heap_Pop h)) + {#snd (heap_Pop h)#} = mset h"
proof -
  define n where "n = length h - 1"
  define d where "d = down (Swap h 0 n) 0 n"
  have n: "n < length h" using ne by (cases h) (simp_all add: n_def)
  have z: "0 < length h" using ne by simp
  have pop: "heap_Pop h = (butlast d, last d)"
    by (simp add: heap_Pop_def Let_def d_def n_def)
  have "length d = length h" by (simp add: d_def)
  then have dne: "d \<noteq> []" using ne by auto
  have "mset d = mset h" using n z by (simp add: d_def mset_down mset_Swap)
  moreover have "d = butlast d @ [last d]" using dne by simp
  then have "mset d = mset (butlast d) + {#last d#}"
    by (metis mset_append mset.simps add_mset_add_single union_mset_add_mset_right
        add.right_neutral)
  ultimately show ?thesis using pop by simp
qed

lemma Pop_sets:
  assumes "heap q \<noteq> []"
  shows "set (heap (fst (Pop q))) \<subseteq> set (heap q)"
    and "\<exists>it \<in> set (heap q). fst (snd (Pop q)) = Inr (task it)"
proof -
  have m: "mset (fst (heap_Pop (heap q))) + {#snd (heap_Pop (heap q))#} = mset (heap q)"
    using assms by (rule heap_Pop_mset)
  then have s: "set (heap q) = insert (snd (heap_Pop (heap q))) (set (fst (heap_Pop (heap q))))"
    by (metis mset_add_set)
  show "set (heap (fst (Pop q))) \<subseteq> set (heap q)"
    using assms s by (auto simp: Pop_nonempty)
  show "\<exists>it \<in> set (heap q). fst (snd (Pop q)) = Inr (task it)"
    using assms s by (auto simp: Pop_nonempty)
qed

text \<open>
  What \<open>processURL\<close> does to the queue and the backlog: nothing, or, when the depth of
  the task is below the maximum, what \<open>addNewURLs\<close> does at the depth of the task plus
  one.
\<close>

lemma processURL_cases:
  obtains (same) r w2 where "processURL e c t maxDepth w = finalize r w2"
      "URLQueue w2 = URLQueue w" "Storage w2 = Storage w" "BloomFilter w2 = BloomFilter w"
  | (expand) r w3 links where "Depth t < maxDepth"
      "URLQueue w3 = URLQueue w" "Storage w3 = Storage w"
      "processURL e c t maxDepth w =
         finalize (r\<lparr>NewURLs := fst (addNewURLs e links (Depth t + 1) w3)\<rparr>)
           (snd (addNewURLs e links (Depth t + 1) w3))"
proof -
  define w1 where "w1 = w\<lparr>ticks := ticks w + 1,
      RobotsCache := snd (CanFetch e UserAgent (URL t) (RobotsCache w))\<rparr>"
  define f where "f = fetchURL e (URL t) w1"
  define x where "x = extract_by_mode e c (fst (fst f)) t
      ((empty_result (URL t) (time_Now e (ticks w)))
         \<lparr>StatusCode := fst (snd (fst f)), Title := ExtractTitle e (fst (fst f))\<rparr>) (snd f)"
  have w1: "URLQueue w1 = URLQueue w" "Storage w1 = Storage w" "BloomFilter w1 = BloomFilter w"
    by (simp_all add: w1_def)
  have f1: "URLQueue (snd f) = URLQueue w" "Storage (snd f) = Storage w"
    "BloomFilter (snd f) = BloomFilter w"
    by (simp_all add: f_def fetchURL_frame w1)
  have x1: "URLQueue (snd x) = URLQueue w" "Storage (snd x) = Storage w"
    "BloomFilter (snd x) = BloomFilter w"
    by (simp_all add: x_def extract_by_mode_frame f1)
  note u = processURL_unfold [of e c t maxDepth w, unfolded Let_def,
      folded w1_def, folded f_def, folded x_def]
  show thesis
  proof (cases "fst (CanFetch e UserAgent (URL t) (RobotsCache w))")
    case False
    then have "processURL e c t maxDepth w =
        finalize ((empty_result (URL t) (time_Now e (ticks w)))
          \<lparr>Error := ''blocked by robots.txt''\<rparr>) w1"
      by (subst u) simp
    then show thesis using w1 by (rule same)
  next
    case allowed: True
    show thesis
    proof (cases "rate_Wait e (URL t)")
      case False
      then have "processURL e c t maxDepth w =
          finalize ((empty_result (URL t) (time_Now e (ticks w)))
            \<lparr>Error := ''rate limit context cancelled''\<rparr>) w1"
        using allowed by (subst u) simp
      then show thesis using w1 by (rule same)
    next
      case rate: True
      show thesis
      proof (cases "snd (snd (fst f))")
        case (Some msg)
        then have "processURL e c t maxDepth w =
            finalize ((empty_result (URL t) (time_Now e (ticks w)))
                \<lparr>StatusCode := fst (snd (fst f)), Error := msg\<rparr>)
              ((snd f)\<lparr>Metrics := UpdateErrors 1 (Metrics (snd f))\<rparr>)"
          using allowed rate by (subst u) simp
        then show thesis by (rule same) (simp_all add: f1)
      next
        case None
        show thesis
        proof (cases "Depth t < maxDepth")
          case False
          then have "processURL e c t maxDepth w = finalize (fst x) (snd x)"
            using allowed rate None by (subst u) simp
          then show thesis using x1 by (rule same)
        next
          case True
          then have "processURL e c t maxDepth w =
              finalize ((fst x)\<lparr>NewURLs := fst (addNewURLs e
                   (ExtractLinks e (fst (fst f)) (URL t)) (Depth t + 1) (snd x))\<rparr>)
                (snd (addNewURLs e (ExtractLinks e (fst (fst f)) (URL t)) (Depth t + 1) (snd x)))"
            using allowed rate None by (subst u) simp
          with True x1(1,2) show thesis by (rule expand)
        qed
      qed
    qed
  qed
qed

lemma processURL_enqueues:
  "(URLQueue (processURL e c t maxDepth w) = URLQueue w
      \<and> urlDB (Storage (processURL e c t maxDepth w)) = urlDB (Storage w)
      \<and> BloomFilter (processURL e c t maxDepth w) = BloomFilter w)
   \<or> (Depth t < maxDepth
      \<and> (\<exists>w3 links new w4. URLQueue w3 = URLQueue w \<and> Storage w3 = Storage w
            \<and> addNewURLs e links (Depth t + 1) w3 = (new, w4)
            \<and> URLQueue (processURL e c t maxDepth w) = URLQueue w4
            \<and> urlDB (Storage (processURL e c t maxDepth w)) = urlDB (Storage w4)))"
proof (cases rule: processURL_cases [of e c t maxDepth w])
  case (same r w2)
  then show ?thesis by simp
next
  case (expand r w3 links)
  obtain new w4 where a: "addNewURLs e links (Depth t + 1) w3 = (new, w4)"
    by (cases "addNewURLs e links (Depth t + 1) w3")
  have "URLQueue (processURL e c t maxDepth w) = URLQueue w4"
    "urlDB (Storage (processURL e c t maxDepth w)) = urlDB (Storage w4)"
    unfolding expand(4) a by simp_all
  then show ?thesis using expand(1,2,3) a by blast
qed

lemma processURL_new_tasks:
  "(\<forall>it \<in> set (heap (URLQueue (processURL e c t maxDepth w))).
       it \<in> set (heap (URLQueue w))
     \<or> (Depth t < maxDepth \<and> Depth (task it) = Depth t + 1))
   \<and> (\<forall>kv \<in> set (urlDB (Storage (processURL e c t maxDepth w))).
       kv \<in> set (urlDB (Storage w))
     \<or> (Depth t < maxDepth \<and> (\<exists>t'. kv = (URLPrefix @ URL t', TaskJSON (json_task t'))
           \<and> Depth t' = Depth t + 1)))"
  using processURL_enqueues [of e c t maxDepth w]
proof (elim disjE conjE exE)
  assume "URLQueue (processURL e c t maxDepth w) = URLQueue w"
    "urlDB (Storage (processURL e c t maxDepth w)) = urlDB (Storage w)"
  then show ?thesis by simp
next
  fix w3 links new w4
  assume d: "Depth t < maxDepth" and q3: "URLQueue w3 = URLQueue w"
    and s3: "Storage w3 = Storage w"
    and r: "addNewURLs e links (Depth t + 1) w3 = (new, w4)"
    and q: "URLQueue (processURL e c t maxDepth w) = URLQueue w4"
    and s: "urlDB (Storage (processURL e c t maxDepth w)) = urlDB (Storage w4)"
  show ?thesis
    unfolding q s
    using addNewURLs_heap_new [OF r] addNewURLs_backlog_new [OF r] d
    unfolding q3 s3 by blast
qed

lemma processURL_at_max_depth:
  "maxDepth \<le> Depth t \<Longrightarrow>
   URLQueue (processURL e c t maxDepth w) = URLQueue w
   \<and> urlDB (Storage (processURL e c t maxDepth w)) = urlDB (Storage w)
   \<and> BloomFilter (processURL e c t maxDepth w) = BloomFilter w"
  using processURL_enqueues [of e c t maxDepth w] by auto

lemma depth_bounded_processURL:
  assumes b: "depth_bounded maxDepth w" and t: "0 \<le> Depth t"
  shows "depth_bounded maxDepth (processURL e c t maxDepth w)"
proof -
  note n = processURL_new_tasks [of e c t maxDepth w]
  have "0 \<le> Depth (task it) \<and> Depth (task it) \<le> maxDepth"
    if "it \<in> set (heap (URLQueue (processURL e c t maxDepth w)))" for it
    using n [THEN conjunct1, rule_format, OF that] b t
    by (auto simp: depth_bounded_def list_all_iff)
  moreover have "stored_depth_ok maxDepth kv"
    if "kv \<in> set (urlDB (Storage (processURL e c t maxDepth w)))" for kv
    using n [THEN conjunct2, rule_format, OF that] b t
    by (auto simp: depth_bounded_def list_all_iff)
  ultimately show ?thesis by (simp add: depth_bounded_def list_all_iff)
qed

lemma depth_bounded_iff:
  "depth_bounded maxDepth w \<longleftrightarrow>
     (\<forall>it \<in> set (heap (URLQueue w)). 0 \<le> Depth (task it) \<and> Depth (task it) \<le> maxDepth)
     \<and> (\<forall>kv \<in> set (urlDB (Storage w)). stored_depth_ok maxDepth kv)"
  by (simp add: depth_bounded_def list_all_iff)

lemma depth_bounded_cong:
  assumes h: "set (heap (URLQueue w')) \<subseteq> set (heap (URLQueue w))"
    and d: "set (urlDB (Storage w')) \<subseteq> set (urlDB (Storage w))"
    and b: "depth_bounded maxDepth w"
  shows "depth_bounded maxDepth w'"
  unfolding depth_bounded_iff
proof (rule conjI; rule ballI)
  fix it assume "it \<in> set (heap (URLQueue w'))"
  with h have "it \<in> set (heap (URLQueue w))" by (rule subsetD)
  with b [unfolded depth_bounded_iff, THEN conjunct1]
  show "0 \<le> Depth (task it) \<and> Depth (task it) \<le> maxDepth" by (rule bspec)
next
  fix kv assume "kv \<in> set (urlDB (Storage w'))"
  with d have "kv \<in> set (urlDB (Storage w))" by (rule subsetD)
  with b [unfolded depth_bounded_iff, THEN conjunct2]
  show "stored_depth_ok maxDepth kv" by (rule bspec)
qed

lemma depth_bounded_Work:
  assumes b: "depth_bounded maxDepth w"
  shows "depth_bounded maxDepth (engine_step e c maxDepth Work w)"
proof (cases "heap (URLQueue w) = []")
  case True
  then have "engine_step e c maxDepth Work w = w" by (simp add: Pop_empty)
  then show ?thesis using b by simp
next
  case False
  obtain q r fl where p: "Pop (URLQueue w) = (q, r, fl)" by (cases "Pop (URLQueue w)")
  have sub: "set (heap q) \<subseteq> set (heap (URLQueue w))"
    using Pop_sets(1) [OF False] unfolding p by simp
  obtain it where it: "it \<in> set (heap (URLQueue w))" and r: "r = Inr (task it)"
    using Pop_sets(2) [OF False] unfolding p by auto
  have st: "engine_step e c maxDepth Work w = processURL e c (task it) maxDepth (w\<lparr>URLQueue := q\<rparr>)"
    by (simp add: p r)
  have "depth_bounded maxDepth (w\<lparr>URLQueue := q\<rparr>)"
  proof (rule depth_bounded_cong [OF _ _ b])
    show "set (heap (URLQueue (w\<lparr>URLQueue := q\<rparr>))) \<subseteq> set (heap (URLQueue w))"
      using sub by simp
    show "set (urlDB (Storage (w\<lparr>URLQueue := q\<rparr>))) \<subseteq> set (urlDB (Storage w))"
      by simp
  qed
  moreover have "0 \<le> Depth (task it)"
    using b [unfolded depth_bounded_iff, THEN conjunct1] it by blast
  ultimately show ?thesis
    unfolding st by (rule depth_bounded_processURL)
qed

lemma depth_bounded_Seed:
  assumes "depth_bounded maxDepth w" "0 \<le> maxDepth"
  shows "depth_bounded maxDepth (engine_step e c maxDepth (Seed u) w)"
proof -
  let ?t = "\<lparr>URL = u, Depth = 0, Timestamp = time_Now e (ticks w), Retries = 0\<rparr>"
  show ?thesis
  proof (cases rule: Push_cases [of "URLQueue w" ?t])
    case full
    then show ?thesis
      using assms by (simp add: StartCrawling_seed_def now_def depth_bounded_def)
  next
    case (room q')
    have "set (heap q') = insert \<lparr>task = ?t, priority = task_priority ?t\<rparr> (set (heap (URLQueue w)))"
      using room(2) by (rule mset_add_set)
    then show ?thesis
      using assms room(1)
      by (simp add: StartCrawling_seed_def now_def depth_bounded_def list_all_iff)
  qed
qed

lemma depth_bounded_Inject:
  assumes "depth_bounded maxDepth w" "0 \<le> maxDepth"
  shows "depth_bounded maxDepth (engine_step e c maxDepth (Inject req) w)"
proof (cases req)
  case None
  then show ?thesis using assms by (simp add: handleAddURLs_def)
next
  case (Some urls)
  show ?thesis
  proof (cases "urls = []")
    case True
    then show ?thesis using assms Some by (simp add: handleAddURLs_def)
  next
    case False
    obtain n errs w' where
      pv: "push_valid e (fst (validate_urls (url_Parse e) urls)) w = (n, errs, w')"
      by (cases "push_valid e (fst (validate_urls (url_Parse e) urls)) w")
    have st: "engine_step e c maxDepth (Inject req) w = w'"
      using Some False pv by (simp add: handleAddURLs_def split_beta Let_def)
    note p = push_valid_props [OF pv]
    have hp: "\<forall>it \<in> set (heap (URLQueue w')). it \<in> set (heap (URLQueue w))
          \<or> (Depth (task it) = 0 \<and> Retries (task it) = 0
              \<and> URL (task it) \<in> set (fst (validate_urls (url_Parse e) urls)))"
      using p by (rule conjunct1)
    have s: "Storage w' = Storage w" using p by simp
    have old: "\<forall>it \<in> set (heap (URLQueue w)).
        0 \<le> Depth (task it) \<and> Depth (task it) \<le> maxDepth"
      using assms(1) by (simp add: depth_bounded_def list_all_iff)
    have "0 \<le> Depth (task it) \<and> Depth (task it) \<le> maxDepth"
      if "it \<in> set (heap (URLQueue w'))" for it
    proof -
      from hp that have "it \<in> set (heap (URLQueue w)) \<or> Depth (task it) = 0" by blast
      then show ?thesis
      proof
        assume "it \<in> set (heap (URLQueue w))"
        with old show ?thesis by (rule bspec)
      next
        assume "Depth (task it) = 0"
        then show ?thesis using assms(2) by simp
      qed
    qed
    then show ?thesis
      unfolding st using assms(1) s by (simp add: depth_bounded_def list_all_iff)
  qed
qed

lemma scan_urls_tasks:
  "set (fst (scan_urls p limit cnt kvs acc))
     \<subseteq> set acc \<union> {t. \<exists>k. (k, TaskJSON t) \<in> set kvs}"
proof (induction kvs arbitrary: cnt acc)
  case Nil
  then show ?case by simp
next
  case (Cons kv kvs)
  obtain k v where kv: "kv = (k, v)" by (cases kv)
  show ?case
  proof (cases v)
    case Undecodable
    then show ?thesis by (simp add: kv)
  next
    case (TaskJSON t)
    show ?thesis
      using Cons.IH [of "cnt + 1" "acc @ [t]"] by (auto simp: kv TaskJSON)
  qed
qed

lemma push_all_set: "set (heap (push_all ts q)) \<subseteq> set (heap q) \<union> item_of ` set ts"
proof (induction ts arbitrary: q)
  case Nil
  then show ?case by simp
next
  case (Cons t ts)
  show ?case
  proof (cases rule: Push_cases [of q t])
    case full
    then show ?thesis using Cons.IH [of q] by auto
  next
    case (room q')
    have "set (heap q') = insert (item_of t) (set (heap q))"
      using room(2) unfolding item_of_def by (rule mset_add_set)
    then show ?thesis using Cons.IH [of q'] room(1) by auto
  qed
qed

lemma GetURLs_sub:
  "set (urlDB (snd (snd (GetURLs limit s)))) \<subseteq> set (urlDB s)"
  "set (fst (GetURLs limit s)) \<subseteq> {t. \<exists>k. (k, TaskJSON t) \<in> set (urlDB s)}"
proof -
  show "set (urlDB (snd (snd (GetURLs limit s)))) \<subseteq> set (urlDB s)"
    by (simp add: GetURLs_def split_beta deleteURLsBatch_filter)
  have "set (Seek URLPrefix (urlDB s)) \<subseteq> set (urlDB s)"
    unfolding Seek_def by (rule set_dropWhileD [THEN subsetI])
  then show "set (fst (GetURLs limit s)) \<subseteq> {t. \<exists>k. (k, TaskJSON t) \<in> set (urlDB s)}"
    using scan_urls_tasks [of URLPrefix limit 0 "Seek URLPrefix (urlDB s)" "[]"]
    by (simp add: GetURLs_def split_beta) blast
qed

lemma depth_bounded_Refill:
  assumes "depth_bounded maxDepth w"
  shows "depth_bounded maxDepth (engine_step e c maxDepth Refill w)"
proof -
  obtain urls err s where g: "GetURLs (maxSize (URLQueue w) - Size (URLQueue w)) (Storage w)
      = (urls, err, s)"
    by (cases "GetURLs (maxSize (URLQueue w) - Size (URLQueue w)) (Storage w)")
  have sub: "set (urlDB s) \<subseteq> set (urlDB (Storage w))"
    and ts: "set urls \<subseteq> {t. \<exists>k. (k, TaskJSON t) \<in> set (urlDB (Storage w))}"
    using GetURLs_sub [of "maxSize (URLQueue w) - Size (URLQueue w)" "Storage w"]
    unfolding g by simp_all
  have ok: "0 \<le> Depth t \<and> Depth t \<le> maxDepth" if "t \<in> set urls" for t
  proof -
    from ts that obtain k where k: "(k, TaskJSON t) \<in> set (urlDB (Storage w))" by auto
    have "\<forall>kv \<in> set (urlDB (Storage w)). stored_depth_ok maxDepth kv"
      using assms by (simp add: depth_bounded_def list_all_iff)
    then have "stored_depth_ok maxDepth (k, TaskJSON t)" using k by (rule bspec)
    then show ?thesis by simp
  qed
  have db: "list_all (stored_depth_ok maxDepth) (urlDB s)"
    using assms sub by (auto simp: depth_bounded_def list_all_iff)
  have hp: "list_all (\<lambda>it. 0 \<le> Depth (task it) \<and> Depth (task it) \<le> maxDepth)
      (heap (push_all urls (URLQueue w)))"
    using push_all_set [of urls "URLQueue w"] assms ok
    by (auto simp: depth_bounded_def list_all_iff item_of_def)
  show ?thesis
    using assms db hp g by (auto simp: refillFromDB_def Let_def depth_bounded_def)
qed

lemma depth_bounded_step:
  "depth_bounded maxDepth w \<Longrightarrow> 0 \<le> maxDepth \<Longrightarrow>
   depth_bounded maxDepth (engine_step e c maxDepth op w)"
  by (cases op)
     (simp_all only: depth_bounded_Seed depth_bounded_Inject depth_bounded_Work
        depth_bounded_Refill)

lemma depth_bounded_run:
  "depth_bounded maxDepth w \<Longrightarrow> 0 \<le> maxDepth \<Longrightarrow>
   depth_bounded maxDepth (engine_run e c maxDepth ops w)"
  unfolding engine_run_def
  by (induction ops arbitrary: w) (simp_all add: depth_bounded_step)


text \<open>The run of \<open>processURL\<close> that expands the links of a page.\<close>

lemma fetchURL_html:
  assumes "http_Do e u = Resp status ct (ReadOk content)" "ct = [] \<or> is_html ct"
  shows "fetchURL e u w =
     ((take (2 * 1024 * 1024) content, status, None), w\<lparr>getLog := getLog w @ [u]\<rparr>)"
  using assms by (auto simp: fetchURL_def is_html_def Let_def)

lemma processURL_expands:
  assumes a: "fst (CanFetch e UserAgent (URL t) (RobotsCache w))" and r: "rate_Wait e (URL t)"
    and h: "http_Do e (URL t) = Resp status ct (ReadOk content)" and ct: "ct = [] \<or> is_html ct"
    and d: "Depth t < maxDepth"
  shows "processURL e c t maxDepth w =
     finalize
       ((fst (extract_by_mode e c (take (2 * 1024 * 1024) content) t
                ((empty_result (URL t) (time_Now e (ticks w)))
                   \<lparr>StatusCode := status,
                     Title := ExtractTitle e (take (2 * 1024 * 1024) content)\<rparr>)
                (w\<lparr>ticks := ticks w + 1,
                   RobotsCache := snd (CanFetch e UserAgent (URL t) (RobotsCache w)),
                   getLog := getLog w @ [URL t]\<rparr>)))
        \<lparr>NewURLs := fst (addNewURLs e
            (ExtractLinks e (take (2 * 1024 * 1024) content) (URL t)) (Depth t + 1)
            (snd (extract_by_mode e c (take (2 * 1024 * 1024) content) t
                ((empty_result (URL t) (time_Now e (ticks w)))
                   \<lparr>StatusCode := status,
                     Title := ExtractTitle e (take (2 * 1024 * 1024) content)\<rparr>)
                (w\<lparr>ticks := ticks w + 1,
                   RobotsCache := snd (CanFetch e UserAgent (URL t) (RobotsCache w)),
                   getLog := getLog w @ [URL t]\<rparr>))))\<rparr>)
       (snd (addNewURLs e
            (ExtractLinks e (take (2 * 1024 * 1024) content) (URL t)) (Depth t + 1)
            (snd (extract_by_mode e c (take (2 * 1024 * 1024) content) t
                ((empty_result (URL t) (time_Now e (ticks w)))
                   \<lparr>StatusCode := status,
                     Title := ExtractTitle e (take (2 * 1024 * 1024) content)\<rparr>)
                (w\<lparr>ticks := ticks w + 1,
                   RobotsCache := snd (CanFetch e UserAgent (URL t) (RobotsCache w)),
                   getLog := getLog w @ [URL t]\<rparr>)))))"
  using a r d fetchURL_html [OF h ct]
  by (simp add: processURL_unfold Let_def)

text \<open>The queue that \<open>addNewURLs\<close> leaves depends on the queue, the filter and the clock.\<close>

lemma add_one_cong:
  assumes "URLQueue w = URLQueue v" "BloomFilter w = BloomFilter v" "ticks w = ticks v"
  shows "URLQueue (add_one e u d w) = URLQueue (add_one e u d v)"
    "BloomFilter (add_one e u d w) = BloomFilter (add_one e u d v)"
    "ticks (add_one e u d w) = ticks (add_one e u d v)"
  using assms by (simp_all add: add_one_def Let_def split: option.splits)

lemma addNewURLs_queue_cong:
  assumes "URLQueue w = URLQueue v" "BloomFilter w = BloomFilter v" "ticks w = ticks v"
  shows "URLQueue (snd (addNewURLs e urls d w)) = URLQueue (snd (addNewURLs e urls d v))"
  using assms
proof (induction urls arbitrary: w v)
  case Nil
  then show ?case by simp
next
  case (Cons u urls)
  show ?case
  proof (cases "\<not> IsValidURL (url_Parse e) u \<or> bloom_Test e (BloomFilter w) u")
    case True
    then show ?thesis
      using Cons.IH [OF Cons.prems] Cons.prems(2) by (simp only: addNewURLs_Cons) simp
  next
    case False
    have "URLQueue (snd (addNewURLs e urls d (add_one e u d w)))
        = URLQueue (snd (addNewURLs e urls d (add_one e u d v)))"
      by (rule Cons.IH) (rule add_one_cong [OF Cons.prems])+
    then show ?thesis
      using False Cons.prems(2) by (simp only: addNewURLs_Cons) simp
  qed
qed

section \<open>Claim about the depth bound\<close>

text \<open>
  Claim C5. Every task that waits, in the heap of the queue or in the backlog of the store,
  has a depth between 0 and the maximal depth: for a maximal depth that is not negative,
  the bound holds after every run of the steps that enqueue tasks (the admission of the
  seed, an injection, a worker processing the task it popped, a refill from the backlog)
  from a state in which it holds, such as one with an empty heap and an empty database. A
  maximal depth below 0 is left out: the seed has depth 0. A task at the maximal depth or
  beyond generates no children: \<open>processURL\<close> leaves the queue, the backlog and the Bloom
  filter as they were. Whatever \<open>processURL\<close> adds to the heap or to the backlog, it adds
  only when the depth of the task is strictly below the maximum, and with the depth of the
  task plus one. When the page of such a task is fetched, \<open>processURL\<close> is the run of
  \<open>addNewURLs\<close> on the links of the page at the depth of the task plus one, followed by
  the storing of the result.
\<close>

theorem C5_depth_of_enqueued_tasks_is_bounded:
  "(0 \<le> maxDepth \<and> depth_bounded maxDepth w \<longrightarrow>
      depth_bounded maxDepth (engine_run e c maxDepth ops w))
   \<and> (maxDepth \<le> Depth t \<longrightarrow>
        URLQueue (processURL e c t maxDepth w) = URLQueue w
      \<and> urlDB (Storage (processURL e c t maxDepth w)) = urlDB (Storage w)
      \<and> BloomFilter (processURL e c t maxDepth w) = BloomFilter w)
   \<and> (\<forall>it \<in> set (heap (URLQueue (processURL e c t maxDepth w))).
        it \<in> set (heap (URLQueue w))
      \<or> (Depth t < maxDepth \<and> Depth (task it) = Depth t + 1))
   \<and> (\<forall>kv \<in> set (urlDB (Storage (processURL e c t maxDepth w))).
        kv \<in> set (urlDB (Storage w))
      \<or> (Depth t < maxDepth
         \<and> (\<exists>t'. kv = (URLPrefix @ URL t', TaskJSON (json_task t'))
                \<and> Depth t' = Depth t + 1)))
   \<and> (fst (CanFetch e UserAgent (URL t) (RobotsCache w)) \<and> rate_Wait e (URL t)
        \<and> http_Do e (URL t) = Resp status ct (ReadOk content) \<and> (ct = [] \<or> is_html ct)
        \<and> Depth t < maxDepth \<longrightarrow>
      processURL e c t maxDepth w =
        finalize
          ((fst (extract_by_mode e c (take (2 * 1024 * 1024) content) t
                   ((empty_result (URL t) (time_Now e (ticks w)))
                      \<lparr>StatusCode := status,
                        Title := ExtractTitle e (take (2 * 1024 * 1024) content)\<rparr>)
                   (w\<lparr>ticks := ticks w + 1,
                      RobotsCache := snd (CanFetch e UserAgent (URL t) (RobotsCache w)),
                      getLog := getLog w @ [URL t]\<rparr>)))
           \<lparr>NewURLs := fst (addNewURLs e
               (ExtractLinks e (take (2 * 1024 * 1024) content) (URL t)) (Depth t + 1)
               (snd (extract_by_mode e c (take (2 * 1024 * 1024) content) t
                   ((empty_result (URL t) (time_Now e (ticks w)))
                      \<lparr>StatusCode := status,
                        Title := ExtractTitle e (take (2 * 1024 * 1024) content)\<rparr>)
                   (w\<lparr>ticks := ticks w + 1,
                      RobotsCache := snd (CanFetch e UserAgent (URL t) (RobotsCache w)),
                      getLog := getLog w @ [URL t]\<rparr>))))\<rparr>)
          (snd (addNewURLs e
               (ExtractLinks e (take (2 * 1024 * 1024) content) (URL t)) (Depth t + 1)
               (snd (extract_by_mode e c (take (2 * 1024 * 1024) content) t
                   ((empty_result (URL t) (time_Now e (ticks w)))
                      \<lparr>StatusCode := status,
                        Title := ExtractTitle e (take (2 * 1024 * 1024) content)\<rparr>)
                   (w\<lparr>ticks := ticks w + 1,
                      RobotsCache := snd (CanFetch e UserAgent (URL t) (RobotsCache w)),
                      getLog := getLog w @ [URL t]\<rparr>))))))
   \<and> (heap (URLQueue w) = [] \<and> urlDB (Storage w) = [] \<longrightarrow> depth_bounded maxDepth w)"
proof (intro conjI)
  show "0 \<le> maxDepth \<and> depth_bounded maxDepth w \<longrightarrow>
      depth_bounded maxDepth (engine_run e c maxDepth ops w)"
    using depth_bounded_run [of maxDepth w e c ops] by blast
  show "maxDepth \<le> Depth t \<longrightarrow>
        URLQueue (processURL e c t maxDepth w) = URLQueue w
      \<and> urlDB (Storage (processURL e c t maxDepth w)) = urlDB (Storage w)
      \<and> BloomFilter (processURL e c t maxDepth w) = BloomFilter w"
    using processURL_at_max_depth [of maxDepth t e c w] by blast
  show "\<forall>it \<in> set (heap (URLQueue (processURL e c t maxDepth w))).
        it \<in> set (heap (URLQueue w))
      \<or> (Depth t < maxDepth \<and> Depth (task it) = Depth t + 1)"
    using processURL_new_tasks [of e c t maxDepth w] by (rule conjunct1)
  show "\<forall>kv \<in> set (urlDB (Storage (processURL e c t maxDepth w))).
        kv \<in> set (urlDB (Storage w))
      \<or> (Depth t < maxDepth
         \<and> (\<exists>t'. kv = (URLPrefix @ URL t', TaskJSON (json_task t'))
                \<and> Depth t' = Depth t + 1))"
    using processURL_new_tasks [of e c t maxDepth w] by (rule conjunct2)
next
  show "fst (CanFetch e UserAgent (URL t) (RobotsCache w)) \<and> rate_Wait e (URL t)
        \<and> http_Do e (URL t) = Resp status ct (ReadOk content) \<and> (ct = [] \<or> is_html ct)
        \<and> Depth t < maxDepth \<longrightarrow>
      processURL e c t maxDepth w =
        finalize
          ((fst (extract_by_mode e c (take (2 * 1024 * 1024) content) t
                   ((empty_result (URL t) (time_Now e (ticks w)))
                      \<lparr>StatusCode := status,
                        Title := ExtractTitle e (take (2 * 1024 * 1024) content)\<rparr>)
                   (w\<lparr>ticks := ticks w + 1,
                      RobotsCache := snd (CanFetch e UserAgent (URL t) (RobotsCache w)),
                      getLog := getLog w @ [URL t]\<rparr>)))
           \<lparr>NewURLs := fst (addNewURLs e
               (ExtractLinks e (take (2 * 1024 * 1024) content) (URL t)) (Depth t + 1)
               (snd (extract_by_mode e c (take (2 * 1024 * 1024) content) t
                   ((empty_result (URL t) (time_Now e (ticks w)))
                      \<lparr>StatusCode := status,
                        Title := ExtractTitle e (take (2 * 1024 * 1024) content)\<rparr>)
                   (w\<lparr>ticks := ticks w + 1,
                      RobotsCache := snd (CanFetch e UserAgent (URL t) (RobotsCache w)),
                      getLog := getLog w @ [URL t]\<rparr>))))\<rparr>)
          (snd (addNewURLs e
               (ExtractLinks e (take (2 * 1024 * 1024) content) (URL t)) (Depth t + 1)
               (snd (extract_by_mode e c (take (2 * 1024 * 1024) content) t
                   ((empty_result (URL t) (time_Now e (ticks w)))
                      \<lparr>StatusCode := status,
                        Title := ExtractTitle e (take (2 * 1024 * 1024) content)\<rparr>)
                   (w\<lparr>ticks := ticks w + 1,
                      RobotsCache := snd (CanFetch e UserAgent (URL t) (RobotsCache w)),
                      getLog := getLog w @ [URL t]\<rparr>)))))"
    by (intro impI, elim conjE, rule processURL_expands)
next
  show "heap (URLQueue w) = [] \<and> urlDB (Storage w) = [] \<longrightarrow> depth_bounded maxDepth w"
    by (simp add: depth_bounded_def)
qed

text \<open>
  The claim as stated fails for a negative maximal depth, which the \<open>--depth\<close> flag
  accepts: \<open>StartCrawling\<close> enqueues the seed at depth 0 whatever the maximum is, so with
  \<open>--depth -1\<close> the queue holds a task of depth 0, above the maximum. It also fails on a
  database that holds a backlog written under a larger maximum (the database is opened, not
  emptied, when the crawler starts): with \<open>--depth 1\<close> a refill puts the task of depth 2
  of \<open>sample_store\<close> into the heap.
\<close>

theorem C5_depth_bound_counterexample:
  "map (\<lambda>it. (URL (task it), Depth (task it)))
     (heap (URLQueue (engine_run sample_env sample_service (- 1) [Seed ''http://a.io/'']
                        sample_world)))
     = [(''http://a.io/'', 0)]
   \<and> list_ex (\<lambda>it. \<not> Depth (task it) \<le> - 1)
       (heap (URLQueue (engine_run sample_env sample_service (- 1) [Seed ''http://a.io/'']
                          sample_world)))
   \<and> \<not> depth_bounded (- 1)
         (engine_run sample_env sample_service (- 1) [Seed ''http://a.io/''] sample_world)
   \<and> list_ex (\<lambda>it. task it = task_a \<and> \<not> Depth (task it) \<le> 1)
       (heap (URLQueue (engine_run sample_env sample_service 1 [Refill]
                          (sample_world\<lparr>Storage := sample_store\<rparr>))))"
  by code_simp

theorem C5_depth_of_enqueued_tasks_is_bounded_witness:
  "(0::int) \<le> 2 \<and> depth_bounded 2 sample_world
   \<and> depth_bounded 2 (sample_world\<lparr>Storage := sample_store\<rparr>)
   \<and> depth_bounded 2
       (engine_run sample_env sample_service 2
          [Seed ''http://a.io/'', Work, Inject (Some [''http://c.io/x'']), Refill, Work]
          (sample_world\<lparr>Storage := sample_store\<rparr>))
   \<and> 1 \<le> Depth task_c
   \<and> URLQueue (processURL sample_env sample_service task_c 1 sample_world)
       = URLQueue sample_world
   \<and> urlDB (Storage (processURL sample_env sample_service task_c 1 sample_world))
       = urlDB (Storage sample_world)
   \<and> Depth page_task < 1
   \<and> map (\<lambda>it. (URL (task it), Depth (task it)))
        (heap (URLQueue (processURL sample_env sample_service page_task 1 sample_world)))
       = [(''http://a.io/1'', 1), (''http://a.io/2'', 1)]
   \<and> list_all (\<lambda>it. Depth (task it) = Depth page_task + 1)
        (heap (URLQueue (processURL sample_env sample_service page_task 1 sample_world)))"
proof -
  let ?w = "sample_world\<lparr>Storage := sample_store\<rparr>"
  note T = C5_depth_of_enqueued_tasks_is_bounded
  have b: "depth_bounded 2 ?w" by code_simp
  have b0: "depth_bounded 2 sample_world"
    using T [where maxDepth = 2 and w = sample_world, THEN conjunct2, THEN conjunct2,
             THEN conjunct2, THEN conjunct2, THEN conjunct2]
    by (simp add: sample_world_def NewPriorityURLQueue_def new_storage_def)
  have run: "depth_bounded 2
       (engine_run sample_env sample_service 2
          [Seed ''http://a.io/'', Work, Inject (Some [''http://c.io/x'']), Refill, Work] ?w)"
    using T [where maxDepth = 2 and w = ?w and e = sample_env and c = sample_service
               and ops = "[Seed ''http://a.io/'', Work, Inject (Some [''http://c.io/x'']),
                           Refill, Work]", THEN conjunct1] b
    by simp
  have c1: "1 \<le> Depth task_c" by (simp add: task_c_def)
  have stop: "URLQueue (processURL sample_env sample_service task_c 1 sample_world)
       = URLQueue sample_world
     \<and> urlDB (Storage (processURL sample_env sample_service task_c 1 sample_world))
       = urlDB (Storage sample_world)"
    using T [where maxDepth = 1 and t = task_c and w = sample_world and e = sample_env
               and c = sample_service, THEN conjunct2, THEN conjunct1] c1
    by simp
  have d0: "Depth page_task < 1" by (simp add: page_task_def)
  have a: "fst (CanFetch sample_env UserAgent (URL page_task) (RobotsCache sample_world))"
    by code_simp
  have r: "rate_Wait sample_env (URL page_task)" by (simp add: sample_env_def)
  have h: "http_Do sample_env (URL page_task) = Resp 200 ''text/html'' (ReadOk ''<html>'')"
    by (simp add: sample_env_def page_task_def)
  have ih: "is_html ''text/html''" by code_simp
  have links: "ExtractLinks sample_env content base = [''http://a.io/1'', ''http://a.io/2'']"
    for content base
    by (simp add: sample_env_def)
  let ?x = "snd (extract_by_mode sample_env sample_service (take (2 * 1024 * 1024) ''<html>'')
               page_task
               ((empty_result (URL page_task) (time_Now sample_env (ticks sample_world)))
                   \<lparr>StatusCode := 200,
                     Title := ExtractTitle sample_env (take (2 * 1024 * 1024) ''<html>'')\<rparr>)
               (sample_world\<lparr>ticks := ticks sample_world + 1,
                  RobotsCache := snd (CanFetch sample_env UserAgent (URL page_task)
                                        (RobotsCache sample_world)),
                  getLog := getLog sample_world @ [URL page_task]\<rparr>))"
  have q: "URLQueue (processURL sample_env sample_service page_task 1 sample_world)
      = URLQueue (snd (addNewURLs sample_env [''http://a.io/1'', ''http://a.io/2'']
                        (Depth page_task + 1) ?x))"
    using T [where maxDepth = 1 and t = page_task and w = sample_world and e = sample_env
               and c = sample_service and status = 200 and ct = "''text/html''"
               and content = "''<html>''",
             THEN conjunct2, THEN conjunct2, THEN conjunct2, THEN conjunct2, THEN conjunct1,
             THEN mp, OF conjI [OF a conjI [OF r conjI [OF h conjI [OF disjI2 [OF ih] d0]]]]]
    by (simp only: finalize_fields links)
  have "URLQueue (snd (addNewURLs sample_env [''http://a.io/1'', ''http://a.io/2'']
                        (Depth page_task + 1) ?x))
      = URLQueue (snd (addNewURLs sample_env [''http://a.io/1'', ''http://a.io/2'']
                        (Depth page_task + 1) (sample_world\<lparr>ticks := 1\<rparr>)))"
    by (rule addNewURLs_queue_cong)
       (simp_all add: extract_by_mode_frame sample_world_def)
  moreover have "map (\<lambda>it. (URL (task it), Depth (task it)))
      (heap (URLQueue (snd (addNewURLs sample_env [''http://a.io/1'', ''http://a.io/2'']
                        (Depth page_task + 1) (sample_world\<lparr>ticks := 1\<rparr>)))))
      = [(''http://a.io/1'', 1), (''http://a.io/2'', 1)]"
    by code_simp
  ultimately have m: "map (\<lambda>it. (URL (task it), Depth (task it)))
        (heap (URLQueue (processURL sample_env sample_service page_task 1 sample_world)))
       = [(''http://a.io/1'', 1), (''http://a.io/2'', 1)]"
    unfolding q by simp
  have e: "heap (URLQueue sample_world) = []"
    by (simp add: sample_world_def NewPriorityURLQueue_def)
  have new: "list_all (\<lambda>it. Depth (task it) = Depth page_task + 1)
        (heap (URLQueue (processURL sample_env sample_service page_task 1 sample_world)))"
    using T [where maxDepth = 1 and t = page_task and w = sample_world and e = sample_env
               and c = sample_service, THEN conjunct2, THEN conjunct2, THEN conjunct1]
    unfolding e list_all_iff by simp
  show ?thesis
    using b0 b run c1 stop d0 m new by simp
qed

section \<open>Claim about the capacity of the queue\<close>

lemma maxSize_step [simp]: "maxSize (queue_step op q) = maxSize q"
  by (cases op) (simp_all add: Push_def Pop_def Close_def split_beta)

lemma maxSize_run [simp]: "maxSize (queue_run ops q) = maxSize q"
  unfolding queue_run_def by (induction ops arbitrary: q) simp_all

lemma Push_outcomes:
  "Push q t = (q, Some ErrQueueFull)
   \<or> (\<exists>q'. Push q t = (q', None) \<and> length (heap q') = Suc (length (heap q)))"
proof (cases rule: Push_cases [of q t])
  case full
  then show ?thesis by simp
next
  case (room q')
  have "length (heap q') = Suc (length (heap q))" using room(2) by (rule mset_add_length)
  then show ?thesis using room(1) by simp
qed

text \<open>
  Claim C6. \<open>Push\<close> on a queue whose heap holds \<open>maxSize\<close> items or more returns
  \<open>ErrQueueFull\<close> and the queue as it was; \<open>Push\<close> is a total function with these two
  outcomes only (it does not wait); from a queue that satisfies the invariant, as the new
  queue does, no run of queue operations makes the heap exceed \<open>maxSize\<close>. In
  \<open>addNewURLs\<close>, the queue keeps within its capacity; every valid URL of the input is
  returned unless the Bloom filter reported it (it was added before, or it collides); the
  task of every URL returned is in the heap or, when the push failed, in the backlog of the
  store under the key of its URL; on a queue that is full on entry every task goes to the
  store and the queue is unchanged. A round of the loop on a full queue, for a valid URL
  that the Bloom filter does not report, is a call of \<open>StoreURL\<close> with the new task: the
  loop goes on from the state with the URL added to the filter and the task stored, and
  returns the URL.
\<close>

theorem C6_queue_is_bounded_and_overflow_is_stored:
  "(maxSize q \<le> int (length (heap q)) \<longrightarrow> Push q t = (q, Some ErrQueueFull))
   \<and> (Push q t = (q, Some ErrQueueFull)
      \<or> (\<exists>q'. Push q t = (q', None) \<and> length (heap q') = Suc (length (heap q))))
   \<and> (queue_inv q \<longrightarrow>
        (\<forall>ops. int (length (heap (queue_run ops q))) \<le> maxSize (queue_run ops q)
             \<and> maxSize (queue_run ops q) = maxSize q))
   \<and> (\<forall>new w'. addNewURLs e urls depth w = (new, w') \<longrightarrow>
         (queue_inv (URLQueue w) \<longrightarrow>
            int (length (heap (URLQueue w'))) \<le> maxSize (URLQueue w'))
       \<and> (\<forall>u \<in> set urls. IsValidURL (url_Parse e) u \<longrightarrow>
              u \<in> set new \<or> u \<in> set (members (BloomFilter w))
            \<or> (\<exists>ms. bloom_collision e ms u))
       \<and> (\<forall>u \<in> set new. \<exists>t'. URL t' = u \<and> Depth t' = depth
              \<and> (item_of t' \<in> set (heap (URLQueue w'))
                 \<or> map_of (urlDB (Storage w')) (URLPrefix @ u) = Some (TaskJSON (json_task t'))))
       \<and> (maxSize (URLQueue w) \<le> int (length (heap (URLQueue w))) \<longrightarrow>
            URLQueue w' = URLQueue w
          \<and> (\<forall>u \<in> set new. \<exists>t'. URL t' = u \<and> Depth t' = depth
                 \<and> map_of (urlDB (Storage w')) (URLPrefix @ u)
                     = Some (TaskJSON (json_task t')))))
   \<and> (IsValidURL (url_Parse e) url \<and> \<not> bloom_Test e (BloomFilter w) url
        \<and> maxSize (URLQueue w) \<le> int (length (heap (URLQueue w))) \<longrightarrow>
       addNewURLs e (url # urls) depth w =
         (url # fst (addNewURLs e urls depth
            (w\<lparr>BloomFilter := bloom_Add url (BloomFilter w), ticks := ticks w + 1,
               Storage := StoreURL \<lparr>URL = url, Depth = depth,
                                     Timestamp = time_Now e (ticks w), Retries = 0\<rparr>
                            (Storage w)\<rparr>)),
          snd (addNewURLs e urls depth
            (w\<lparr>BloomFilter := bloom_Add url (BloomFilter w), ticks := ticks w + 1,
               Storage := StoreURL \<lparr>URL = url, Depth = depth,
                                     Timestamp = time_Now e (ticks w), Retries = 0\<rparr>
                            (Storage w)\<rparr>))))"
proof (intro conjI allI impI)
  assume "maxSize q \<le> int (length (heap q))"
  then show "Push q t = (q, Some ErrQueueFull)" by (rule Push_full)
next
  show "Push q t = (q, Some ErrQueueFull)
      \<or> (\<exists>q'. Push q t = (q', None) \<and> length (heap q') = Suc (length (heap q)))"
    by (rule Push_outcomes)
next
  fix ops assume "queue_inv q"
  then have "queue_inv (queue_run ops q)" by (rule queue_inv_run)
  then show "int (length (heap (queue_run ops q))) \<le> maxSize (queue_run ops q)"
    by (simp add: queue_inv_def)
next
  fix ops show "maxSize (queue_run ops q) = maxSize q" by simp
next
  fix new w' assume "addNewURLs e urls depth w = (new, w')" "queue_inv (URLQueue w)"
  then have "queue_inv (URLQueue w')" using addNewURLs_queue_inv by blast
  then show "int (length (heap (URLQueue w'))) \<le> maxSize (URLQueue w')"
    by (simp add: queue_inv_def)
next
  fix new w' assume r: "addNewURLs e urls depth w = (new, w')"
  show "\<forall>u \<in> set urls. IsValidURL (url_Parse e) u \<longrightarrow>
              u \<in> set new \<or> u \<in> set (members (BloomFilter w))
            \<or> (\<exists>ms. bloom_collision e ms u)"
    using r by (rule addNewURLs_admits)
next
  fix new w' assume r: "addNewURLs e urls depth w = (new, w')"
  show "\<forall>u \<in> set new. \<exists>t'. URL t' = u \<and> Depth t' = depth
              \<and> (item_of t' \<in> set (heap (URLQueue w'))
                 \<or> map_of (urlDB (Storage w')) (URLPrefix @ u) = Some (TaskJSON (json_task t')))"
    using addNewURLs_routed [OF r] by blast
next
  fix new w' assume r: "addNewURLs e urls depth w = (new, w')"
    and f: "maxSize (URLQueue w) \<le> int (length (heap (URLQueue w)))"
  show "URLQueue w' = URLQueue w" using addNewURLs_full [OF r] f by blast
  show "\<forall>u \<in> set new. \<exists>t'. URL t' = u \<and> Depth t' = depth
                 \<and> map_of (urlDB (Storage w')) (URLPrefix @ u) = Some (TaskJSON (json_task t'))"
    using addNewURLs_full [OF r] f by blast
next
  assume a: "IsValidURL (url_Parse e) url \<and> \<not> bloom_Test e (BloomFilter w) url
        \<and> maxSize (URLQueue w) \<le> int (length (heap (URLQueue w)))"
  show "addNewURLs e (url # urls) depth w =
         (url # fst (addNewURLs e urls depth
            (w\<lparr>BloomFilter := bloom_Add url (BloomFilter w), ticks := ticks w + 1,
               Storage := StoreURL \<lparr>URL = url, Depth = depth,
                                     Timestamp = time_Now e (ticks w), Retries = 0\<rparr>
                            (Storage w)\<rparr>)),
          snd (addNewURLs e urls depth
            (w\<lparr>BloomFilter := bloom_Add url (BloomFilter w), ticks := ticks w + 1,
               Storage := StoreURL \<lparr>URL = url, Depth = depth,
                                     Timestamp = time_Now e (ticks w), Retries = 0\<rparr>
                            (Storage w)\<rparr>)))"
    using a by (intro addNewURLs_full_round) simp_all
qed

theorem C6_queue_is_bounded_and_overflow_is_stored_witness:
  "queue_inv full_queue
   \<and> maxSize full_queue \<le> int (length (heap full_queue))
   \<and> Push full_queue task_a = (full_queue, Some ErrQueueFull)
   \<and> int (length (heap (queue_run [OpPush task_a, OpPop, OpPush task_c, OpPush task_a]
                          full_queue))) \<le> maxSize full_queue
   \<and> fst (addNewURLs sample_env [''http://a.io/1'', ''mailto:x@y.io'', ''http://a.io/2'']
             1 full_world) = [''http://a.io/1'', ''http://a.io/2'']
   \<and> URLQueue (snd (addNewURLs sample_env
                       [''http://a.io/1'', ''mailto:x@y.io'', ''http://a.io/2''] 1 full_world))
       = full_queue
   \<and> list_all (\<lambda>u. \<exists>t'. URL t' = u \<and> Depth t' = 1
         \<and> map_of (urlDB (Storage (snd (addNewURLs sample_env
               [''http://a.io/1'', ''mailto:x@y.io'', ''http://a.io/2''] 1 full_world))))
             (URLPrefix @ u) = Some (TaskJSON (json_task t')))
       [''http://a.io/1'', ''http://a.io/2'']
   \<and> IsValidURL (url_Parse sample_env) ''http://a.io/1''
   \<and> \<not> bloom_Test sample_env (BloomFilter full_world) ''http://a.io/1''
   \<and> addNewURLs sample_env [''http://a.io/1''] 1 full_world
       = ([''http://a.io/1''],
          full_world\<lparr>BloomFilter := bloom_Add ''http://a.io/1'' (BloomFilter full_world),
             ticks := 1,
             Storage := StoreURL \<lparr>URL = ''http://a.io/1'', Depth = 1,
                                   Timestamp = 1700000000, Retries = 0\<rparr> new_storage\<rparr>)"
proof -
  let ?urls = "[''http://a.io/1'', ''mailto:x@y.io'', ''http://a.io/2'']"
  have inv: "queue_inv full_queue"
    by (simp add: queue_inv_def full_queue_def heap_ok_def heap_upto_def)
  have full: "maxSize full_queue \<le> int (length (heap full_queue))"
    by (simp add: full_queue_def)
  have q: "URLQueue full_world = full_queue"
    by (simp add: full_world_def)
  have v: "IsValidURL (url_Parse sample_env) ''http://a.io/1''" by code_simp
  have b: "\<not> bloom_Test sample_env (BloomFilter full_world) ''http://a.io/1''" by code_simp
  have st: "Storage full_world = new_storage" "ticks full_world = 0"
    "time_Now sample_env 0 = 1700000000"
    by (simp_all add: full_world_def sample_world_def sample_env_def)
  obtain new w' where r: "addNewURLs sample_env ?urls 1 full_world = (new, w')"
    by (cases "addNewURLs sample_env ?urls 1 full_world")
  have "fst (addNewURLs sample_env ?urls 1 full_world) = [''http://a.io/1'', ''http://a.io/2'']"
    by code_simp
  then have n: "new = [''http://a.io/1'', ''http://a.io/2'']" using r by simp
  note t = C6_queue_is_bounded_and_overflow_is_stored
             [where q = full_queue and t = task_a and e = sample_env and urls = ?urls
                and depth = 1 and w = full_world]
  have t1: "Push full_queue task_a = (full_queue, Some ErrQueueFull)"
    using t [THEN conjunct1] full by blast
  have t2: "int (length (heap (queue_run [OpPush task_a, OpPop, OpPush task_c, OpPush task_a]
                          full_queue))) \<le> maxSize full_queue"
    using t [THEN conjunct2, THEN conjunct2, THEN conjunct1] inv by simp
  have t3: "URLQueue w' = full_queue
      \<and> (\<forall>u \<in> set new. \<exists>t'. URL t' = u \<and> Depth t' = 1
             \<and> map_of (urlDB (Storage w')) (URLPrefix @ u) = Some (TaskJSON (json_task t')))"
    using t [THEN conjunct2, THEN conjunct2, THEN conjunct2, THEN conjunct1, THEN spec,
             THEN spec, THEN mp, OF r] full unfolding q by blast
  have t4: "addNewURLs sample_env [''http://a.io/1''] 1 full_world
       = ([''http://a.io/1''],
          full_world\<lparr>BloomFilter := bloom_Add ''http://a.io/1'' (BloomFilter full_world),
             ticks := 1,
             Storage := StoreURL \<lparr>URL = ''http://a.io/1'', Depth = 1,
                                   Timestamp = 1700000000, Retries = 0\<rparr> new_storage\<rparr>)"
    using C6_queue_is_bounded_and_overflow_is_stored
             [where e = sample_env and url = "''http://a.io/1''" and urls = "[]"
                and depth = 1 and w = full_world,
              THEN conjunct2, THEN conjunct2, THEN conjunct2, THEN conjunct2, THEN mp,
              OF conjI [OF v conjI [OF b full [folded q]]]]
    unfolding st by simp
  show ?thesis
    using inv full t1 t2 t3 v b t4 unfolding r fst_conv snd_conv n list_all_iff by blast
qed

section \<open>Claim about the destructive read of the backlog\<close>

text \<open>
  The read on a well-formed backlog. On a store whose keys are in order and whose backlog
  entries have the key of the task they decode to, as \<open>StoreURL\<close> writes them for URLs in
  well-formed UTF-8, \<open>GetURLs limit\<close> returns without error the tasks of the first
  \<open>limit\<close> backlog entries in key order, and deletes them in one batch
  (\<open>deleteURLsBatch\<close>): the backlog that remains is the old one without its first
  \<open>limit\<close> entries, the keys outside the backlog namespace and the results are untouched,
  and whatever a later \<open>GetURLs\<close> returns comes from the entries that remained, none of
  which was returned before.
\<close>

lemma GetURLs_on_well_formed_backlog:
  assumes "db_inv (urlDB s)" and "backlog_wf (urlDB s)"
  shows "case GetURLs limit s of (tasks, err, s') \<Rightarrow>
       err = None
     \<and> tasks = map entry_task (take (nat limit) (backlog (urlDB s)))
     \<and> int (length tasks) \<le> max 0 limit
     \<and> sorted (map (\<lambda>t. URLPrefix @ URL t) tasks)
     \<and> urlDB s' = (if tasks = [] then urlDB s else deleteURLsBatch tasks (urlDB s))
     \<and> backlog (urlDB s') = drop (nat limit) (backlog (urlDB s))
     \<and> other_keys (urlDB s') = other_keys (urlDB s)
     \<and> resultsDB s' = resultsDB s \<and> metrics s' = metrics s
     \<and> db_inv (urlDB s') \<and> backlog_wf (urlDB s')
     \<and> (\<forall>limit2. fst (GetURLs limit2 s')
            = map entry_task (take (nat limit2) (drop (nat limit) (backlog (urlDB s))))
          \<and> set (fst (GetURLs limit2 s')) \<inter> set tasks = {})"
proof -
  let ?B = "backlog (urlDB s)"
  let ?taken = "take (nat limit) ?B"
  let ?tasks = "map entry_task ?taken"
  define s' where "s' = (if ?taken = [] then s
                         else s\<lparr>urlDB := deleteURLsBatch ?tasks (urlDB s)\<rparr>)"
  have g: "GetURLs limit s = (?tasks, None, s')"
    unfolding s'_def by (rule GetURLs_wf [OF assms])
  note del = deleted_backlog [OF assms, of "nat limit"]
  have wfB: "list_all entry_wf ?B" using assms(2) by (simp add: backlog_wf_def)
  have dB: "distinct (map fst ?B)" using assms(1) by (rule distinct_backlog)
  have twf: "list_all entry_wf ?taken"
    using wfB by (metis append_take_drop_id list_all_append)
  have keys: "map (\<lambda>t. URLPrefix @ URL t) ?tasks = map fst ?taken"
    using twf by (rule wf_keys_map)
  have "sorted (map fst ?B)"
    using assms(1) by (simp add: db_inv_def backlog_def sorted_filter)
  then have "sorted (take (nat limit) (map fst ?B))" by (rule sorted_wrt_take)
  then have "sorted (map fst ?taken)" by (simp only: take_map)
  then have srt: "sorted (map (\<lambda>t. URLPrefix @ URL t) ?tasks)"
    by (simp only: keys)
  have len: "int (length ?tasks) \<le> max 0 limit" by simp
  have e: "?taken = [] \<Longrightarrow> drop (nat limit) ?B = ?B"
    by (cases "nat limit") (simp_all add: take_eq_Nil)
  have b': "backlog (urlDB s') = drop (nat limit) ?B"
    using del(1) e by (simp add: s'_def)
  have o': "other_keys (urlDB s') = other_keys (urlDB s)"
    using del(2) by (simp add: s'_def)
  have inv': "db_inv (urlDB s')"
    using del(3) assms(1) by (simp add: s'_def)
  have wf': "backlog_wf (urlDB s')"
    unfolding backlog_wf_def b' using wfB by (metis append_take_drop_id list_all_append)
  have later1: "fst (GetURLs limit2 s')
      = map entry_task (take (nat limit2) (drop (nat limit) ?B))" for limit2
    using GetURLs_wf [OF inv' wf', of limit2] unfolding b' by simp
  have later2: "set (fst (GetURLs limit2 s')) \<inter> set ?tasks = {}" for limit2
    unfolding later1 using dB wfB by (rule take_drop_tasks_disjoint)
  have u: "urlDB s' = (if ?tasks = [] then urlDB s else deleteURLsBatch ?tasks (urlDB s))"
    by (simp add: s'_def)
  have r1: "resultsDB s' = resultsDB s" and r2: "metrics s' = metrics s"
    by (simp_all add: s'_def)
  show ?thesis
    unfolding g prod.case
    by (intro conjI allI) (rule refl srt len u b' o' r1 r2 inv' wf' later1 later2)+
qed

text \<open>
  Claim C7: \<open>fetch_urls(limit)\<close> returns up to \<open>limit\<close> backlog entries in key order and
  deletes exactly the returned entries, so that a subsequent \<open>fetch_urls\<close> does not return
  them again. The code misses this for an entry whose URL is not well-formed UTF-8.
  \<open>addNewURLs\<close> accepts the link \<open>latin1_url\<close> and, the queue being full, hands its task
  to \<open>StoreURL\<close>, which writes it under the key made of the URL as it is, while the URL in
  the JSON value has U+FFFD for the byte \<open>0xE4\<close>. \<open>GetURLs 5\<close> returns the decoded task
  without error; \<open>deleteURLsBatch\<close> builds the key to delete from the decoded task, which
  is not the key of the entry, so the store is left as it was and the next \<open>GetURLs\<close>
  returns the same task again.
\<close>

theorem C7_returned_entry_is_not_deleted:
  "IsValidURL go_url_Parse latin1_url
   \<and> Storage (snd (addNewURLs sample_env [latin1_url] 1 full_world)) = latin1_store
   \<and> urlDB latin1_store
       = [(''url:http://h.io/s?q=K'' @ [CHR 0xE4] @ ''se'',
           TaskJSON (latin1_task\<lparr>URL := ''http://h.io/s?q=K'' @ replacement_rune @ ''se''\<rparr>))]
   \<and> fst (GetURLs 5 latin1_store)
       = [latin1_task\<lparr>URL := ''http://h.io/s?q=K'' @ replacement_rune @ ''se''\<rparr>]
   \<and> fst (snd (GetURLs 5 latin1_store)) = None
   \<and> urlDB (snd (snd (GetURLs 5 latin1_store))) = urlDB latin1_store
   \<and> fst (GetURLs 5 (snd (snd (GetURLs 5 latin1_store)))) = fst (GetURLs 5 latin1_store)
   \<and> \<not> backlog_wf (urlDB latin1_store)"
  by code_simp

section \<open>Claim about the sampling of dead-link checks\<close>

lemma sample_count: "nat \<lfloor>(of_nat n :: rat) / 5\<rfloor> = n div 5"
proof -
  have "(of_nat n :: rat) / 5 = of_nat n / of_nat 5" by simp
  then show ?thesis by (simp only: floor_divide_of_nat_eq nat_int)
qed

lemma length_shuffle_from [simp]: "length (shuffle_from rnd i xs) = length xs"
  by (induction i arbitrary: xs) (simp_all add: Let_def)

lemma mset_shuffle_from: "i < length xs \<Longrightarrow> mset (shuffle_from rnd i xs) = mset xs"
proof (induction i arbitrary: xs)
  case 0
  then show ?case by simp
next
  case (Suc i)
  let ?j = "rnd (Suc i + 1) mod (Suc i + 1)"
  have j: "?j < length xs" using Suc.prems
    by (metis Suc_eq_plus1 less_Suc_eq_le mod_less_divisor order_le_less_trans zero_less_Suc)
  have "mset (xs[Suc i := xs ! ?j, ?j := xs ! Suc i]) = mset xs"
    using Suc.prems j by (simp add: mset_swap)
  moreover have "i < length (xs[Suc i := xs ! ?j, ?j := xs ! Suc i])"
    using Suc.prems by simp
  ultimately show ?case using Suc.IH by (simp add: Let_def)
qed

lemma sampleLinks_props:
  "length (sampleLinks e links (2 / 10))
     = (if links = [] then 0 else max 1 (length links div 5))"
  "mset (sampleLinks e links (2 / 10)) \<subseteq># mset links"
proof -
  let ?sh = "shuffle_from (rand_Intn e) (length links - 1) links"
  let ?k = "if length links div 5 = 0 \<and> length links > 0 then 1 else length links div 5"
  have s: "sampleLinks e links (2 / 10) = take ?k ?sh"
    by (simp add: sampleLinks_def sample_count Let_def)
  show "length (sampleLinks e links (2 / 10))
     = (if links = [] then 0 else max 1 (length links div 5))"
    unfolding s by (cases links) (auto simp: max_def)
  have m: "mset ?sh = mset links"
  proof (cases links)
    case Nil
    then show ?thesis by simp
  next
    case (Cons a as)
    then show ?thesis by (intro mset_shuffle_from) simp
  qed
  have "mset (take ?k ?sh) \<subseteq># mset ?sh"
    by (metis append_take_drop_id mset_append mset_subset_eq_add_left)
  then show "mset (sampleLinks e links (2 / 10)) \<subseteq># mset links"
    unfolding s m .
qed

lemma queueLinksForChecking_eq:
  "queueLinksForChecking links src x =
     x\<lparr>linkQueue := linkQueue x
          @ map (\<lambda>l. (l, src)) (take (linkQueue_cap - length (linkQueue x)) links)\<rparr>"
proof (induction links arbitrary: x)
  case Nil
  then show ?case by simp
next
  case (Cons l links)
  show ?case
  proof (cases "length (linkQueue x) < linkQueue_cap")
    case True
    then obtain d where d: "linkQueue_cap - length (linkQueue x) = Suc d"
      by (metis Suc_diff_Suc)
    then have "linkQueue_cap - Suc (length (linkQueue x)) = d" by simp
    then show ?thesis using True d by (simp add: Cons.IH)
  next
    case False
    then show ?thesis by (simp add: Cons.IH)
  qed
qed

text \<open>
  Claim C8. \<open>CheckDeadLinks\<close> returns two empty lists. It changes nothing of the
  extractor but the channel: no HEAD request is issued and no cache is written (these are
  the work of \<open>processLinkAsync\<close>). The links sampled are a sub-multiset of the links
  given, one fifth of them rounded down and at least one when there is any; they are
  appended to the channel in order while it has room (capacity 1000), the others are
  dropped.
\<close>

theorem C8_check_dead_links_only_enqueues:
  "case CheckDeadLinks e links src x of (deadLinks, deadDomains, x') \<Rightarrow>
       deadLinks = [] \<and> deadDomains = []
     \<and> headLog x' = headLog x
     \<and> deadLinkCache x' = deadLinkCache x \<and> deadDomainCache x' = deadDomainCache x
     \<and> (\<exists>sampled.
            mset sampled \<subseteq># mset links
          \<and> length sampled = (if links = [] then 0 else max 1 (length links div 5))
          \<and> (links \<noteq> [] \<longrightarrow> 1 \<le> length sampled)
          \<and> linkQueue x' = linkQueue x
               @ map (\<lambda>l. (l, src)) (take (linkQueue_cap - length (linkQueue x)) sampled))
     \<and> length (linkQueue x') \<le> max linkQueue_cap (length (linkQueue x))"
proof -
  let ?s = "sampleLinks e links (2 / 10)"
  let ?x' = "x\<lparr>linkQueue := linkQueue x
          @ map (\<lambda>l. (l, src)) (take (linkQueue_cap - length (linkQueue x)) ?s)\<rparr>"
  have c: "CheckDeadLinks e links src x = ([], [], ?x')"
    by (simp add: CheckDeadLinks_def Let_def queueLinksForChecking_eq)
  have l: "length ?s = (if links = [] then 0 else max 1 (length links div 5))"
    by (rule sampleLinks_props)
  have m: "mset ?s \<subseteq># mset links" by (rule sampleLinks_props)
  have one: "links \<noteq> [] \<longrightarrow> 1 \<le> length ?s" unfolding l by simp
  have ex: "\<exists>sampled.
            mset sampled \<subseteq># mset links
          \<and> length sampled = (if links = [] then 0 else max 1 (length links div 5))
          \<and> (links \<noteq> [] \<longrightarrow> 1 \<le> length sampled)
          \<and> linkQueue ?x' = linkQueue x
               @ map (\<lambda>l. (l, src)) (take (linkQueue_cap - length (linkQueue x)) sampled)"
    using m l one by (intro exI [of _ ?s]) simp
  have cap: "length (linkQueue ?x') \<le> max linkQueue_cap (length (linkQueue x))"
    by simp
  show ?thesis
    unfolding c prod.case using ex cap by simp
qed

theorem C8_check_dead_links_only_enqueues_witness:
  "seven_links \<noteq> []
   \<and> CheckDeadLinks sample_env seven_links ''http://a.io/'' new_extractor
       = ([], [], new_extractor\<lparr>linkQueue := [(''http://a.io/2'', ''http://a.io/'')]\<rparr>)
   \<and> (\<exists>sampled. mset sampled \<subseteq># mset seven_links \<and> 1 \<le> length sampled
         \<and> linkQueue (snd (snd (CheckDeadLinks sample_env seven_links ''http://a.io/''
                                   new_extractor)))
            = map (\<lambda>l. (l, ''http://a.io/'')) (take linkQueue_cap sampled))"
proof -
  have ne: "seven_links \<noteq> []" by (simp add: seven_links_def)
  have sh: "shuffle_from (\<lambda>n. 0) 6 seven_links
      = [''http://a.io/2'', ''http://a.io/3'', ''http://a.io/4'', ''http://a.io/5'',
         ''http://a.io/6'', ''http://a.io/7'', ''http://a.io/1'']"
    by code_simp
  have s: "sampleLinks sample_env seven_links (2 / 10) = [''http://a.io/2'']"
    using sh by (simp add: sampleLinks_def sample_count Let_def sample_env_def)
      (simp add: seven_links_def)
  have c: "CheckDeadLinks sample_env seven_links ''http://a.io/'' new_extractor
       = ([], [], new_extractor\<lparr>linkQueue := [(''http://a.io/2'', ''http://a.io/'')]\<rparr>)"
    unfolding CheckDeadLinks_def Let_def s
    by (simp add: new_extractor_def linkQueue_cap_def)
  have q: "linkQueue new_extractor = []" by (simp add: new_extractor_def)
  note t = C8_check_dead_links_only_enqueues
             [where e = sample_env and links = seven_links and src = "''http://a.io/''"
                and x = new_extractor, unfolded c prod.case q]
  from t obtain sampled where "mset sampled \<subseteq># mset seven_links"
    "seven_links \<noteq> [] \<longrightarrow> 1 \<le> length sampled"
    "linkQueue (new_extractor\<lparr>linkQueue := [(''http://a.io/2'', ''http://a.io/'')]\<rparr>)
       = [] @ map (\<lambda>l. (l, ''http://a.io/'')) (take (linkQueue_cap - length ([]::(string \<times> string) list)) sampled)"
    by blast
  then have "mset sampled \<subseteq># mset seven_links \<and> 1 \<le> length sampled
         \<and> linkQueue (snd (snd (CheckDeadLinks sample_env seven_links ''http://a.io/''
                                   new_extractor)))
            = map (\<lambda>l. (l, ''http://a.io/'')) (take linkQueue_cap sampled)"
    using ne unfolding c by simp
  then show ?thesis using ne c by blast
qed


section \<open>Claims about the queue\<close>

text \<open>
  Claim C9. From a queue that satisfies the invariant (as the new queue does), after any
  run of queue operations: \<open>Pop\<close> on an empty heap returns \<open>ErrQueueEmpty\<close> and leaves
  the queue as it is, without starting a refill; \<open>Pop\<close> on a non-empty heap returns the
  task of an item of the heap whose priority is minimal among the items of the heap, and
  removes that item. The priority is \<open>depth * 1000 + creation second\<close> in 64-bit
  arithmetic; when these values are in the 64-bit range for the tasks of the heap, the
  returned task minimises \<open>depth * 1000 + creation second\<close> itself. \<open>Pop\<close> is a total
  function: it does not wait.
\<close>

theorem C9_pop_returns_minimum:
  assumes "queue_inv q0"
  shows "let q = queue_run ops q0 in
     (heap q = [] \<longrightarrow> Pop q = (q, Inl ErrQueueEmpty, False)) \<and>
     (heap q \<noteq> [] \<longrightarrow>
        (\<exists>it \<in> set (heap q).
            fst (snd (Pop q)) = Inr (task it)
          \<and> (\<forall>it' \<in> set (heap q). task_priority (task it) \<le> task_priority (task it'))
          \<and> ((\<forall>it' \<in> set (heap q). in_int64 (Depth (task it') * 1000)
                   \<and> in_int64 (Depth (task it') * 1000 + Timestamp (task it')))
               \<longrightarrow> (\<forall>it' \<in> set (heap q). Depth (task it) * 1000 + Timestamp (task it)
                        \<le> Depth (task it') * 1000 + Timestamp (task it')))
          \<and> mset (heap (fst (Pop q))) + {#it#} = mset (heap q)))"
proof -
  define q where "q = queue_run ops q0"
  have inv: "queue_inv q" unfolding q_def using assms by (rule queue_inv_run)
  have "\<exists>it \<in> set (heap q).
            fst (snd (Pop q)) = Inr (task it)
          \<and> (\<forall>it' \<in> set (heap q). task_priority (task it) \<le> task_priority (task it'))
          \<and> ((\<forall>it' \<in> set (heap q). in_int64 (Depth (task it') * 1000)
                   \<and> in_int64 (Depth (task it') * 1000 + Timestamp (task it')))
               \<longrightarrow> (\<forall>it' \<in> set (heap q). Depth (task it) * 1000 + Timestamp (task it)
                        \<le> Depth (task it') * 1000 + Timestamp (task it')))
          \<and> mset (heap (fst (Pop q))) + {#it#} = mset (heap q)"
    if ne: "heap q \<noteq> []"
  proof -
    from Pop_min [OF inv ne] obtain it where it: "it \<in> set (heap q)"
      "fst (snd (Pop q)) = Inr (task it)"
      "\<forall>it' \<in> set (heap q). task_priority (task it) \<le> task_priority (task it')"
      "mset (heap (fst (Pop q))) + {#it#} = mset (heap q)" by blast
    have "\<forall>it' \<in> set (heap q). Depth (task it) * 1000 + Timestamp (task it)
                        \<le> Depth (task it') * 1000 + Timestamp (task it')"
      if r: "\<forall>it' \<in> set (heap q). in_int64 (Depth (task it') * 1000)
                   \<and> in_int64 (Depth (task it') * 1000 + Timestamp (task it'))"
      using it(1,3) r by (metis task_priority_exact)
    then show ?thesis using it by blast
  qed
  then show ?thesis
    unfolding q_def [symmetric] Let_def using Pop_empty by blast
qed

theorem C9_pop_returns_minimum_witness:
  "queue_inv NewPriorityURLQueue
   \<and> heap (queue_run [OpPush task_a, OpPush task_b, OpPush task_c] NewPriorityURLQueue) \<noteq> []
   \<and> fst (snd (Pop (queue_run [OpPush task_a, OpPush task_b, OpPush task_c]
                      NewPriorityURLQueue))) = Inr task_b
   \<and> (\<exists>it \<in> set (heap (queue_run [OpPush task_a, OpPush task_b, OpPush task_c]
                          NewPriorityURLQueue)).
         Inr task_b = Inr (task it)
       \<and> (\<forall>it' \<in> set (heap (queue_run [OpPush task_a, OpPush task_b, OpPush task_c]
                          NewPriorityURLQueue)).
            Depth (task it) * 1000 + Timestamp (task it)
              \<le> Depth (task it') * 1000 + Timestamp (task it')))
   \<and> Pop (queue_run [OpPush task_a, OpPop] NewPriorityURLQueue)
       = (queue_run [OpPush task_a, OpPop] NewPriorityURLQueue, Inl ErrQueueEmpty, False)"
proof -
  let ?q = "queue_run [OpPush task_a, OpPush task_b, OpPush task_c] NewPriorityURLQueue"
  let ?e = "queue_run [OpPush task_a, OpPop] NewPriorityURLQueue"
  have h: "heap ?q = [\<lparr>task = task_b, priority = 1700000005\<rparr>,
                      \<lparr>task = task_a, priority = 1700002000\<rparr>,
                      \<lparr>task = task_c, priority = 1700001001\<rparr>]"
    by code_simp
  have p: "fst (snd (Pop ?q)) = Inr task_b"
    by code_simp
  have e: "heap ?e = []"
    by code_simp
  have r: "\<forall>it' \<in> set (heap ?q). in_int64 (Depth (task it') * 1000)
                   \<and> in_int64 (Depth (task it') * 1000 + Timestamp (task it'))"
    unfolding h by (simp add: in_int64_def task_a_def task_b_def task_c_def)
  have ne: "heap ?q \<noteq> []" by (simp add: h)
  from C9_pop_returns_minimum [OF queue_inv_New, of "[OpPush task_a, OpPush task_b, OpPush task_c]"]
       C9_pop_returns_minimum [OF queue_inv_New, of "[OpPush task_a, OpPop]"]
  show ?thesis
    unfolding Let_def using ne r p e queue_inv_New by (simp only: simp_thms) blast
qed


section \<open>Claim about the robots checker\<close>

lemma getRobots_cached: "cache d = Some r \<Longrightarrow> getRobots e d cache = (r, cache)"
  by (simp add: getRobots_def)

lemma getRobots_both_fail:
  "cache d = None \<Longrightarrow> robots_Get e (''https://'' @ d @ ''/robots.txt'') = GetErr \<Longrightarrow>
   robots_Get e (''http://'' @ d @ ''/robots.txt'') = GetErr \<Longrightarrow>
   getRobots e d cache = (None, cache(d \<mapsto> None))"
  by (simp add: getRobots_def)

lemma getRobots_not_200:
  "cache d = None \<Longrightarrow> status \<noteq> 200 \<Longrightarrow>
   robots_Get e (''https://'' @ d @ ''/robots.txt'') = GetResp status body
   \<or> (robots_Get e (''https://'' @ d @ ''/robots.txt'') = GetErr
      \<and> robots_Get e (''http://'' @ d @ ''/robots.txt'') = GetResp status body) \<Longrightarrow>
   getRobots e d cache = (None, cache(d \<mapsto> None))"
  by (auto simp: getRobots_def robots_after_def)

lemma CanFetch_no_robots:
  "url_Parse e urlStr = Some u \<Longrightarrow> getRobots e (Host u) cache = (None, cache') \<Longrightarrow>
   CanFetch e ua urlStr cache = (True, cache')"
  by (simp add: CanFetch_def)

text \<open>
  Claim C10. When the URL does not parse, \<open>CanFetch\<close> returns false and leaves the cache
  as it is: no robots.txt was looked up or retrieved. When the URL parses and no rules are
  obtainable for its host, it returns true: the cached nil of an earlier failure, both
  retrievals failing, a status other than 200, and in general whenever \<open>getRobots\<close>
  returns nil.
\<close>

theorem C10_unparsable_url_is_not_fetchable:
  "(url_Parse e urlStr = None \<longrightarrow> CanFetch e ua urlStr cache = (False, cache))
   \<and> (\<forall>u. url_Parse e urlStr = Some u \<longrightarrow>
         (cache (Host u) = Some None \<longrightarrow> CanFetch e ua urlStr cache = (True, cache))
       \<and> (cache (Host u) = None
            \<and> robots_Get e (''https://'' @ Host u @ ''/robots.txt'') = GetErr
            \<and> robots_Get e (''http://'' @ Host u @ ''/robots.txt'') = GetErr
           \<longrightarrow> CanFetch e ua urlStr cache = (True, cache(Host u \<mapsto> None)))
       \<and> (\<forall>status body. cache (Host u) = None \<and> status \<noteq> 200
            \<and> (robots_Get e (''https://'' @ Host u @ ''/robots.txt'') = GetResp status body
               \<or> (robots_Get e (''https://'' @ Host u @ ''/robots.txt'') = GetErr
                  \<and> robots_Get e (''http://'' @ Host u @ ''/robots.txt'')
                       = GetResp status body))
           \<longrightarrow> CanFetch e ua urlStr cache = (True, cache(Host u \<mapsto> None)))
       \<and> (fst (getRobots e (Host u) cache) = None \<longrightarrow> fst (CanFetch e ua urlStr cache)))"
proof (intro conjI allI impI)
  assume "url_Parse e urlStr = None"
  then show "CanFetch e ua urlStr cache = (False, cache)" by (simp add: CanFetch_def)
next
  fix u assume "url_Parse e urlStr = Some u" "cache (Host u) = Some None"
  then show "CanFetch e ua urlStr cache = (True, cache)"
    by (simp add: CanFetch_no_robots getRobots_cached)
next
  fix u assume "url_Parse e urlStr = Some u"
    "cache (Host u) = None
      \<and> robots_Get e (''https://'' @ Host u @ ''/robots.txt'') = GetErr
      \<and> robots_Get e (''http://'' @ Host u @ ''/robots.txt'') = GetErr"
  then show "CanFetch e ua urlStr cache = (True, cache(Host u \<mapsto> None))"
    by (simp add: CanFetch_no_robots getRobots_both_fail)
next
  fix u status body assume p: "url_Parse e urlStr = Some u"
    and h: "cache (Host u) = None \<and> status \<noteq> 200
      \<and> (robots_Get e (''https://'' @ Host u @ ''/robots.txt'') = GetResp status body
         \<or> (robots_Get e (''https://'' @ Host u @ ''/robots.txt'') = GetErr
            \<and> robots_Get e (''http://'' @ Host u @ ''/robots.txt'') = GetResp status body))"
  have "getRobots e (Host u) cache = (None, cache(Host u \<mapsto> None))"
    using h by (intro getRobots_not_200 [of _ _ status _ body]) simp_all
  then show "CanFetch e ua urlStr cache = (True, cache(Host u \<mapsto> None))"
    using p by (rule CanFetch_no_robots [rotated])
next
  fix u assume p: "url_Parse e urlStr = Some u"
    and n: "fst (getRobots e (Host u) cache) = None"
  obtain c' where "getRobots e (Host u) cache = (None, c')"
    using n by (cases "getRobots e (Host u) cache") simp
  then show "fst (CanFetch e ua urlStr cache)"
    using p by (simp add: CanFetch_no_robots)
qed

theorem C10_unparsable_url_is_not_fetchable_witness:
  "url_Parse sample_env '':bad'' = None
   \<and> CanFetch sample_env UserAgent '':bad'' Map.empty = (False, Map.empty)
   \<and> url_Parse sample_env ''http://b.io/x'' \<noteq> None
   \<and> CanFetch sample_env UserAgent ''http://b.io/x'' [''b.io'' \<mapsto> None]
        = (True, [''b.io'' \<mapsto> None])
   \<and> CanFetch sample_env UserAgent ''http://b.io/x'' Map.empty = (True, [''b.io'' \<mapsto> None])
   \<and> CanFetch sample_env UserAgent ''http://c.io/x'' Map.empty = (True, [''c.io'' \<mapsto> None])
   \<and> fst (CanFetch sample_env UserAgent ''http://c.io/x'' Map.empty)"
proof -
  have p0: "go_url_Parse '':bad'' = None" by code_simp
  have pb: "go_url_Parse ''http://b.io/x''
      = Some \<lparr>Scheme = ''http'', Opaque = [], Host = ''b.io'', Path = ''/x'', RawQuery = [],
               Fragment = []\<rparr>" by code_simp
  have pc: "go_url_Parse ''http://c.io/x''
      = Some \<lparr>Scheme = ''http'', Opaque = [], Host = ''c.io'', Path = ''/x'', RawQuery = [],
               Fragment = []\<rparr>" by code_simp
  have e0: "url_Parse sample_env '':bad'' = None"
    and eb: "url_Parse sample_env ''http://b.io/x''
      = Some \<lparr>Scheme = ''http'', Opaque = [], Host = ''b.io'', Path = ''/x'', RawQuery = [],
               Fragment = []\<rparr>"
    and ec: "url_Parse sample_env ''http://c.io/x''
      = Some \<lparr>Scheme = ''http'', Opaque = [], Host = ''c.io'', Path = ''/x'', RawQuery = [],
               Fragment = []\<rparr>"
    using p0 pb pc by (simp_all add: sample_env_def)
  have gb: "robots_Get sample_env (''https://'' @ ''b.io'' @ ''/robots.txt'') = GetErr"
    "robots_Get sample_env (''http://'' @ ''b.io'' @ ''/robots.txt'') = GetErr"
    by (simp_all add: sample_env_def)
  have gc: "robots_Get sample_env (''https://'' @ ''c.io'' @ ''/robots.txt'') = GetResp 404 []"
    by (simp add: sample_env_def)
  note t0 = C10_unparsable_url_is_not_fetchable
              [where e = sample_env and urlStr = "'':bad''" and ua = UserAgent
                 and cache = Map.empty, THEN conjunct1, rule_format, OF e0]
  note tb = C10_unparsable_url_is_not_fetchable
              [where e = sample_env and urlStr = "''http://b.io/x''" and ua = UserAgent,
               THEN conjunct2, THEN spec, THEN mp, OF eb]
  note tc = C10_unparsable_url_is_not_fetchable
              [where e = sample_env and urlStr = "''http://c.io/x''" and ua = UserAgent
                 and cache = Map.empty, THEN conjunct2, THEN spec, THEN mp, OF ec]
  have b1: "CanFetch sample_env UserAgent ''http://b.io/x'' [''b.io'' \<mapsto> None]
        = (True, [''b.io'' \<mapsto> None])"
    using tb [of "[''b.io'' \<mapsto> None]", THEN conjunct1] by simp
  have b2: "CanFetch sample_env UserAgent ''http://b.io/x'' Map.empty
        = (True, [''b.io'' \<mapsto> None])"
    using tb [of Map.empty, THEN conjunct2, THEN conjunct1] gb by simp
  have c1: "CanFetch sample_env UserAgent ''http://c.io/x'' Map.empty
        = (True, [''c.io'' \<mapsto> None])"
    using tc [THEN conjunct2, THEN conjunct2, THEN conjunct1, THEN spec, THEN spec,
              of 404 "[]"] gc by simp
  have c2: "fst (CanFetch sample_env UserAgent ''http://c.io/x'' Map.empty)"
    using c1 by simp
  show ?thesis using e0 t0 eb b1 b2 c1 c2 by simp
qed

end
